theory Spec2Isabelle
  imports Main "HOL-Library.Char_ord" "HOL-Library.List_Lexorder" "HOL-Library.Multiset"
begin

section \<open>archive-workdir: the identity store and the reconciler\<close>

text \<open>
  A shallow embedding of \<^verbatim>\<open>src/archive_workdir/archive_workdir.py\<close> (the older
  \<^verbatim>\<open>src/archive_workdir.py\<close> has the same identity store and the same scan).
  The program copies the subdirectories of a working directory into an archive
  directory. A subdirectory is recognised across renames by the first line of a
  sentinel file \<^verbatim>\<open>.awid\<close> inside it.

  Python's \<^verbatim>\<open>str\<close> is modelled as \<open>string\<close>; a \<open>char\<close> stands for one code point
  of the decoded text (code points below 256). File names are single path components.
  The model has no symbolic links, and every directory can be listed, searched and
  written by the process; the permissions of a sentinel file are modelled.
\<close>

subsection \<open>Strings: \<^verbatim>\<open>str.strip\<close> and \<^verbatim>\<open>readline\<close>\<close>

text \<open>The white space of \<^verbatim>\<open>str.isspace\<close> among the code points below 256:
  U+0009..U+000D, U+001C..U+001F, U+0020, U+0085 and U+00A0.\<close>

definition isspace :: "char \<Rightarrow> bool" where
  "isspace c \<longleftrightarrow> (of_char c :: nat) \<in> {9, 10, 11, 12, 13, 28, 29, 30, 31, 32, 133, 160}"

text \<open>\<^verbatim>\<open>s.strip()\<close>: leading and trailing white space removed.\<close>

definition strip :: "string \<Rightarrow> string" where
  "strip s = rev (dropWhile isspace (rev (dropWhile isspace s)))"

text \<open>\<^verbatim>\<open>f.readline()\<close> on a file opened in text mode at its start: the text up to
  and including the first line end; universal newlines turn \<^verbatim>\<open>\n\<close>, \<^verbatim>\<open>\r\<close>
  and \<^verbatim>\<open>\r\n\<close> into \<^verbatim>\<open>\n\<close>. At the end of the file the line is whatever is left.\<close>

fun readline :: "string \<Rightarrow> string" where
  "readline [] = []"
| "readline (c # cs) =
     (if c = CHR 0x0A \<or> c = CHR 0x0D then [CHR 0x0A] else c # readline cs)"

subsection \<open>The file system\<close>

text \<open>What is at \<^verbatim>\<open>dir/.awid\<close>:
  nothing; a directory (so \<^verbatim>\<open>os.path.isfile\<close> is false); a regular file that the
  process may neither read nor write; a regular file that the process may read and
  write, whose bytes the text decoder rejects while the first line is read; a regular
  file with the given text that the process may read and write; a regular file with
  the given text that the process may read and may not write.\<close>

datatype sentinel = Absent | IsDir | NoAccess | Garbled | Content string | ReadOnly string

text \<open>An entry of a root directory: a directory, with its sentinel and its other
  entries (kept abstract), or something that exists and is not a directory.\<close>

datatype 'c entry = Dir sentinel "'c list" | Other

text \<open>\<^verbatim>\<open>work_base_path / name\<close> and \<^verbatim>\<open>archive_base_path / name\<close>.\<close>

datatype path = Work string | Archive string

text \<open>The calls that reach outside the process, in the order they are made.\<close>

datatype event =
    Listed_work
  | Listed_archive
  | Wrote path string
  | Renamed string string
  | Prepass string string
  | Ran "string list"

record 'c world =
  work :: "string \<rightharpoonup> 'c entry"
  archive :: "string \<rightharpoonup> 'c entry"
  ticks :: nat
  trace :: "event list"

datatype error =
    FileNotFoundError
  | NotADirectoryError
  | IsADirectoryError
  | PermissionError
  | UnicodeDecodeError
  | DirectoryNotEmpty

fun entry_at :: "'c world \<Rightarrow> path \<Rightarrow> 'c entry option" where
  "entry_at w (Work n) = work w n"
| "entry_at w (Archive n) = archive w n"

fun put_entry :: "path \<Rightarrow> 'c entry option \<Rightarrow> 'c world \<Rightarrow> 'c world" where
  "put_entry (Work n) e w = w\<lparr>work := (work w)(n := e)\<rparr>"
| "put_entry (Archive n) e w = w\<lparr>archive := (archive w)(n := e)\<rparr>"

text \<open>\<^verbatim>\<open>Path.is_dir()\<close> and \<^verbatim>\<open>Path.exists()\<close>.\<close>

definition is_dir :: "'c world \<Rightarrow> path \<Rightarrow> bool" where
  "is_dir w p = (case entry_at w p of Some (Dir s c) \<Rightarrow> True | _ \<Rightarrow> False)"

definition path_exists :: "'c world \<Rightarrow> path \<Rightarrow> bool" where
  "path_exists w p = (case entry_at w p of Some e \<Rightarrow> True | None \<Rightarrow> False)"

text \<open>\<^verbatim>\<open>os.path.isfile(os.path.join(path, ".awid"))\<close>.\<close>

definition isfile_awid :: "'c world \<Rightarrow> path \<Rightarrow> bool" where
  "isfile_awid w p =
     (case entry_at w p of
        Some (Dir s c) \<Rightarrow> s \<noteq> Absent \<and> s \<noteq> IsDir
      | _ \<Rightarrow> False)"

text \<open>\<^verbatim>\<open>open(id_path, mode="r")\<close> followed by \<^verbatim>\<open>f.readline()\<close>, on a sentinel
  for which \<^verbatim>\<open>isfile\<close> holds.\<close>

fun open_readline :: "sentinel \<Rightarrow> error + string" where
  "open_readline (Content t) = Inr (readline t)"
| "open_readline (ReadOnly t) = Inr (readline t)"
| "open_readline NoAccess = Inl PermissionError"
| "open_readline Garbled = Inl UnicodeDecodeError"
| "open_readline Absent = Inl FileNotFoundError"
| "open_readline IsDir = Inl IsADirectoryError"

subsection \<open>The identity store\<close>

text \<open>\<^verbatim>\<open>
def read_dir_id(path):
    id_path = os.path.join(path, WORK_DIR_ID_FILENAME)
    if os.path.isfile(id_path):
        with open(id_path, mode="r") as f:
            dir_id = f.readline().strip()
            return dir_id if dir_id else None
    return None
\<close>\<close>

definition read_dir_id :: "'c world \<Rightarrow> path \<Rightarrow> error + string option" where
  "read_dir_id w p =
     (if isfile_awid w p then
        (case entry_at w p of
           Some (Dir s c) \<Rightarrow>
             (case open_readline s of
                Inl e \<Rightarrow> Inl e
              | Inr l \<Rightarrow> (let dir_id = strip l in Inr (if dir_id \<noteq> [] then Some dir_id else None)))
         | _ \<Rightarrow> Inr None)
      else Inr None)"

subsection \<open>Arguments and the outside world\<close>

text \<open>The result of \<^verbatim>\<open>parse_args\<close>. \<open>work_dir\<close> and \<open>archive_dir\<close> are the two
  roots as \<^verbatim>\<open>str(Path(...))\<close> prints them; \<open>mark\<close> is the value of \<^verbatim>\<open>--mark\<close>.\<close>

record args =
  work_dir :: string
  archive_dir :: string
  dry_run :: bool
  report_skipped :: bool
  mark :: "string option"
  mark_new :: bool
  rename :: bool
  verbose :: bool
  rsync_arg :: "string list"
  test_no_rsync :: bool

text \<open>What the program calls and does not define:
  \<^item> \<open>now k\<close> is \<^verbatim>\<open>str(datetime.now())\<close> at the \<open>k\<close>-th reading of the clock;
  \<^item> \<open>mirror command src dst\<close> is what the external \<^verbatim>\<open>rsync\<close>, run with
    \<open>command\<close>, leaves at the destination, given the source and what was there;
  \<^item> \<open>prepass dry work_entries archive_entries\<close> is what the file-renaming pass of
    \<^verbatim>\<open>attempt_renames\<close> makes of the entries below an archive subdirectory,
    together with the error it raises, if it raises one: the renames made before the
    error stay. That pass matches files of equal size below the two directories; it
    never reads or writes the sentinel of the subdirectory itself, and every result
    below holds for any function put here.\<close>

record 'c env =
  now :: "nat \<Rightarrow> string"
  mirror :: "string list \<Rightarrow> 'c entry option \<Rightarrow> 'c entry option \<Rightarrow> 'c entry option"
  prepass :: "bool \<Rightarrow> 'c list \<Rightarrow> 'c list \<Rightarrow> error option \<times> 'c list"

text \<open>\<^verbatim>\<open>str(root / name)\<close> for a name of one path component: the root \<^verbatim>\<open>.\<close> is not
  printed, and the roots \<^verbatim>\<open>/\<close> and \<^verbatim>\<open>//\<close> end with the separator already.\<close>

fun join_path :: "string \<Rightarrow> string \<Rightarrow> string" where
  "join_path root n =
     (if root = ''.'' then n
      else if root = ''/'' \<or> root = ''//'' then root @ n
      else root @ ''/'' @ n)"

text \<open>\<^verbatim>\<open>str(path)\<close>.\<close>

fun path_str :: "args \<Rightarrow> path \<Rightarrow> string" where
  "path_str a (Work n) = join_path (work_dir a) n"
| "path_str a (Archive n) = join_path (archive_dir a) n"


subsection \<open>Marking\<close>

text \<open>\<^verbatim>\<open>open(id_path, mode="w")\<close> and \<^verbatim>\<open>f.write(dir_id)\<close>, where \<^verbatim>\<open>id_path\<close>
  is \<^verbatim>\<open>.awid\<close> below the given entry: the entry afterwards, or the error. A
  missing sentinel is created; a file that can be written is truncated, whatever its
  bytes were.\<close>

fun open_write :: "'c entry option \<Rightarrow> string \<Rightarrow> error + 'c entry" where
  "open_write None t = Inl FileNotFoundError"
| "open_write (Some Other) t = Inl NotADirectoryError"
| "open_write (Some (Dir IsDir c)) t = Inl IsADirectoryError"
| "open_write (Some (Dir NoAccess c)) t = Inl PermissionError"
| "open_write (Some (Dir (ReadOnly u) c)) t = Inl PermissionError"
| "open_write (Some (Dir s c)) t = Inr (Dir (Content t) c)"

definition write_id :: "path \<Rightarrow> string \<Rightarrow> 'c world \<Rightarrow> (error + unit) \<times> 'c world" where
  "write_id p t w =
     (case open_write (entry_at w p) t of
        Inl e \<Rightarrow> (Inl e, w)
      | Inr d \<Rightarrow> (Inr (), put_entry p (Some d) (w\<lparr>trace := trace w @ [Wrote p t]\<rparr>)))"

text \<open>The loop of \<^verbatim>\<open>mark_dir\<close> over the paths that are not \<^verbatim>\<open>None\<close>.\<close>

fun mark_paths :: "args \<Rightarrow> string \<Rightarrow> path list \<Rightarrow> 'c world \<Rightarrow> (error + unit) \<times> 'c world" where
  "mark_paths a dir_id [] w = (Inr (), w)"
| "mark_paths a dir_id (p # ps) w =
     (if \<not> dry_run a then
        (case write_id p dir_id w of
           (Inl e, w') \<Rightarrow> (Inl e, w')
         | (Inr u, w') \<Rightarrow> mark_paths a dir_id ps w')
      else mark_paths a dir_id ps w)"

text \<open>\<^verbatim>\<open>
def mark_dir(args, path1, path2=None):
    dir_id = f"{datetime.now()} {str(path1)}"
    for path in filter(lambda p: p is not None, (path1, path2)):
        id_path = os.path.join(path, WORK_DIR_ID_FILENAME)
        if not args.dry_run:
            with open(id_path, mode="w") as f:
                f.write(dir_id)
    return dir_id
\<close>\<close>

definition fresh_id :: "'c env \<Rightarrow> args \<Rightarrow> path \<Rightarrow> 'c world \<Rightarrow> string" where
  "fresh_id env a path1 w = now env (ticks w) @ '' '' @ path_str a path1"

definition mark_dir ::
  "'c env \<Rightarrow> args \<Rightarrow> path \<Rightarrow> path option \<Rightarrow> 'c world \<Rightarrow> (error + string) \<times> 'c world" where
  "mark_dir env a path1 path2 w =
     (let dir_id = fresh_id env a path1 w;
          w1 = w\<lparr>ticks := Suc (ticks w)\<rparr>
      in case mark_paths a dir_id (path1 # (case path2 of None \<Rightarrow> [] | Some p \<Rightarrow> [p])) w1 of
           (Inl e, w') \<Rightarrow> (Inl e, w')
         | (Inr u, w') \<Rightarrow> (Inr dir_id, w'))"

subsection \<open>Renaming an archive subdirectory\<close>

text \<open>\<^verbatim>\<open>os.rename(src, dst)\<close> between two names of the archive root, as POSIX
  \<^verbatim>\<open>rename(2)\<close> does it: a missing source fails; a directory replaces an empty
  directory, and fails on a directory that is not empty and on a destination that is
  not a directory; a source that is not a directory fails on a directory.\<close>

definition moved :: "string \<Rightarrow> string \<Rightarrow> 'c entry \<Rightarrow> 'c world \<Rightarrow> 'c world" where
  "moved src dst e w =
     w\<lparr>archive := (archive w)(src := None, dst \<mapsto> e), trace := trace w @ [Renamed src dst]\<rparr>"

definition os_rename :: "string \<Rightarrow> string \<Rightarrow> 'c world \<Rightarrow> (error + unit) \<times> 'c world" where
  "os_rename src dst w =
     (case archive w src of
        None \<Rightarrow> (Inl FileNotFoundError, w)
      | Some e \<Rightarrow>
          (if src = dst then (Inr (), w\<lparr>trace := trace w @ [Renamed src dst]\<rparr>)
           else
             (case (e, archive w dst) of
                (_, None) \<Rightarrow> (Inr (), moved src dst e w)
              | (Dir s c, Some (Dir ds dc)) \<Rightarrow>
                  (if ds = Absent \<and> dc = [] then (Inr (), moved src dst e w)
                   else (Inl DirectoryNotEmpty, w))
              | (Dir s c, Some Other) \<Rightarrow> (Inl NotADirectoryError, w)
              | (Other, Some (Dir ds dc)) \<Rightarrow> (Inl IsADirectoryError, w)
              | (Other, Some Other) \<Rightarrow> (Inr (), moved src dst e w))))"

subsection \<open>The renaming pass and the mirror\<close>

text \<open>\<^verbatim>\<open>attempt_renames(args, work_path, archive_path)\<close>: returns at once unless
  the archive path is a directory; the renames below it are made only when
  \<^verbatim>\<open>not args.dry_run\<close>, and those made before an error stay.\<close>

definition attempt_renames ::
  "'c env \<Rightarrow> args \<Rightarrow> string \<Rightarrow> string \<Rightarrow> 'c world \<Rightarrow> (error + unit) \<times> 'c world" where
  "attempt_renames env a wn an w =
     (case archive w an of
        Some (Dir s c) \<Rightarrow>
          (case work w wn of
             Some (Dir ws wc) \<Rightarrow>
               (case prepass env (dry_run a) wc c of
                  (err, c') \<Rightarrow>
                    ((case err of Some e \<Rightarrow> Inl e | None \<Rightarrow> Inr ()),
                     w\<lparr>archive := (archive w)(an \<mapsto> Dir s (if dry_run a then c else c')),
                       trace := trace w @ [Prepass wn an]\<rparr>))
           | Some Other \<Rightarrow> (Inl NotADirectoryError, w)
           | None \<Rightarrow> (Inl FileNotFoundError, w))
      | _ \<Rightarrow> (Inr (), w))"

text \<open>\<^verbatim>\<open>
def rsync_dir(args, work_path, archive_path):
    command = ["rsync"] + RSYNC_FLAGS
    if args.dry_run:
        command.extend(["--dry-run"])
    if args.verbose:
        command.extend(["-v"])
    command.extend(args.rsync_arg)
    command.extend([str(work_path) + "/", str(archive_path)])
    subprocess.run(command)
\<close>\<close>

definition RSYNC_FLAGS :: "string list" where
  "RSYNC_FLAGS = [''-a'', ''--delete'']"

definition rsync_command :: "args \<Rightarrow> string \<Rightarrow> string \<Rightarrow> string list" where
  "rsync_command a wn an =
     [''rsync''] @ RSYNC_FLAGS
     @ (if dry_run a then [''--dry-run''] else [])
     @ (if verbose a then [''-v''] else [])
     @ rsync_arg a
     @ [path_str a (Work wn) @ ''/'', path_str a (Archive an)]"

definition rsync_dir :: "'c env \<Rightarrow> args \<Rightarrow> string \<Rightarrow> string \<Rightarrow> 'c world \<Rightarrow> 'c world" where
  "rsync_dir env a wn an w =
     (let command = rsync_command a wn an
      in w\<lparr>archive := (archive w)(an := mirror env command (work w wn) (archive w an)),
           trace := trace w @ [Ran command]\<rparr>)"

subsection \<open>The reconciler\<close>

text \<open>The decision taken for a work subdirectory, named as the specification names
  it. The program logs it as the string \<^verbatim>\<open>action\<close>:
  \<^item> \<open>NEW\<close>: \<^verbatim>\<open>"NEW"\<close>;
  \<^item> \<open>NEW_CONFLICT_OVERWRITE\<close>: \<^verbatim>\<open>"NEW OVERWRITING directory of same name in archive"\<close>;
  \<^item> \<open>NEW_CONFLICT_SKIP\<close>: \<^verbatim>\<open>"SKIPPING: new, but exists in archive. ..."\<close>;
  \<^item> \<open>RESYNC\<close>: \<^verbatim>\<open>"re-syncing"\<close>;
  \<^item> \<open>RENAMED b\<close>: \<^verbatim>\<open>f"has been renamed from {b}, archive to be updated"\<close>;
  \<^item> \<open>CONFLICT_SKIP\<close>: \<^verbatim>\<open>"SKIPPING because marked but conflicts with archive. ..."\<close>;
  \<^item> \<open>RESTORE\<close>: \<^verbatim>\<open>"RESTORING to archive"\<close>.\<close>

datatype action =
    NEW
  | NEW_CONFLICT_OVERWRITE
  | NEW_CONFLICT_SKIP
  | RESYNC
  | RENAMED string
  | CONFLICT_SKIP
  | RESTORE

text \<open>What the scan leaves behind: the decision lines it logged, and the lists
  \<^verbatim>\<open>rsync_todo\<close> (work name, name of the archive target) and \<^verbatim>\<open>skipped\<close>.\<close>

record result =
  logged :: "(string \<times> action) list"
  rsync_todo :: "(string \<times> string) list"
  skipped :: "(string \<times> action) list"

definition no_result :: result where
  "no_result = \<lparr>logged = [], rsync_todo = [], skipped = []\<rparr>"

text \<open>The loop that fills \<^verbatim>\<open>known_archive_dirs\<close>, over the archive subdirectories
  in the order the file system lists them; a later directory with the same
  identity replaces an earlier one.\<close>

fun collect_known ::
  "'c world \<Rightarrow> string list \<Rightarrow> (string \<rightharpoonup> string) \<Rightarrow> error + (string \<rightharpoonup> string)" where
  "collect_known w [] known = Inr known"
| "collect_known w (n # ns) known =
     (case read_dir_id w (Archive n) of
        Inl e \<Rightarrow> Inl e
      | Inr None \<Rightarrow> collect_known w ns known
      | Inr (Some dir_id) \<Rightarrow> collect_known w ns (known(dir_id \<mapsto> n)))"

definition known_archive_dirs :: "'c world \<Rightarrow> string list \<Rightarrow> error + (string \<rightharpoonup> string)" where
  "known_archive_dirs w al =
     collect_known w (filter (\<lambda>n. is_dir w (Archive n)) al) Map.empty"

text \<open>The body of the loop over the work subdirectories (lines 221 to 261 of the
  source): the action, and \<^verbatim>\<open>archive_subdir\<close> as the name of the target below the
  archive root, or \<^verbatim>\<open>None\<close>.\<close>

definition scan_step ::
  "'c env \<Rightarrow> args \<Rightarrow> (string \<rightharpoonup> string) \<Rightarrow> string \<Rightarrow> 'c world
   \<Rightarrow> (error + action \<times> string option) \<times> 'c world" where
  "scan_step env a known n w =
     (case read_dir_id w (Work n) of
        Inl e \<Rightarrow> (Inl e, w)
      | Inr None \<Rightarrow>
          (if path_exists w (Archive n) then
             (if mark_new a then
                (case mark_dir env a (Work n) (Some (Archive n)) w of
                   (Inl e, w') \<Rightarrow> (Inl e, w')
                 | (Inr i, w') \<Rightarrow> (Inr (NEW_CONFLICT_OVERWRITE, Some n), w'))
              else (Inr (NEW_CONFLICT_SKIP, None), w))
           else
             (case mark_dir env a (Work n) None w of
                (Inl e, w') \<Rightarrow> (Inl e, w')
              | (Inr i, w') \<Rightarrow> (Inr (NEW, Some n), w')))
      | Inr (Some work_dir_id) \<Rightarrow>
          (case known work_dir_id of
             Some k \<Rightarrow>
               (if k \<noteq> n then
                  (if \<not> dry_run a then
                     (case os_rename k n w of
                        (Inl e, w') \<Rightarrow> (Inl e, w')
                      | (Inr u, w') \<Rightarrow> (Inr (RENAMED k, Some n), w'))
                   else (Inr (RENAMED k, None), w))
                else (Inr (RESYNC, Some k), w))
           | None \<Rightarrow>
               (if path_exists w (Archive n) then (Inr (CONFLICT_SKIP, None), w)
                else (Inr (RESTORE, Some n), w))))"

text \<open>Lines 263 to 267: the decision is logged, and the entry goes to
  \<^verbatim>\<open>rsync_todo\<close> when \<^verbatim>\<open>archive_subdir\<close> is set, to \<^verbatim>\<open>skipped\<close> otherwise.\<close>

definition record_decision :: "string \<Rightarrow> action \<times> string option \<Rightarrow> result \<Rightarrow> result" where
  "record_decision n d r =
     (case snd d of
        Some t \<Rightarrow> r\<lparr>logged := logged r @ [(n, fst d)], rsync_todo := rsync_todo r @ [(n, t)]\<rparr>
      | None \<Rightarrow> r\<lparr>logged := logged r @ [(n, fst d)], skipped := skipped r @ [(n, fst d)]\<rparr>)"

fun scan ::
  "'c env \<Rightarrow> args \<Rightarrow> (string \<rightharpoonup> string) \<Rightarrow> string list \<Rightarrow> 'c world \<Rightarrow> result
   \<Rightarrow> (error + result) \<times> 'c world" where
  "scan env a known [] w r = (Inr r, w)"
| "scan env a known (n # ns) w r =
     (case scan_step env a known n w of
        (Inl e, w') \<Rightarrow> (Inl e, w')
      | (Inr d, w') \<Rightarrow> scan env a known ns w' (record_decision n d r))"

text \<open>Lines 271 to 280: the renaming pass when \<^verbatim>\<open>--rename\<close> is given, then
  \<^verbatim>\<open>rsync\<close> unless \<^verbatim>\<open>--test-no-rsync\<close> is given.\<close>

fun run_rsync ::
  "'c env \<Rightarrow> args \<Rightarrow> (string \<times> string) list \<Rightarrow> 'c world \<Rightarrow> (error + unit) \<times> 'c world" where
  "run_rsync env a [] w = (Inr (), w)"
| "run_rsync env a ((wn, an) # todo) w =
     (case (if rename a then attempt_renames env a wn an w else (Inr (), w)) of
        (Inl e, w') \<Rightarrow> (Inl e, w')
      | (Inr u, w') \<Rightarrow>
          (if test_no_rsync a then run_rsync env a todo w'
           else run_rsync env a todo (rsync_dir env a wn an w')))"

text \<open>\<^verbatim>\<open>if args.mark:\<close> holds for a string that is not empty. The value of
  \<^verbatim>\<open>--mark\<close> is joined to both roots; it is read here as the name of an entry of
  the roots, which it is when it is one path component (\<open>plain_name\<close>).\<close>

definition mark_requested :: "args \<Rightarrow> bool" where
  "mark_requested a = (case mark a of None \<Rightarrow> False | Some m \<Rightarrow> m \<noteq> [])"

text \<open>\<^verbatim>\<open>main\<close>. \<open>wl\<close> and \<open>al\<close> are the names of the work root and of the archive
  root in the order \<^verbatim>\<open>iterdir()\<close> yields them. \<^verbatim>\<open>sorted\<close> compares the paths of
  one parent by their names, code point by code point (POSIX paths); this is the
  lexicographic order of \<open>string\<close>. The value is what \<^verbatim>\<open>main\<close> returns (\<^verbatim>\<open>None\<close>
  after marking a single directory, else 0 or 1) together with the lists of the scan,
  or the exception that ends the run; the file system it leaves comes with either.\<close>

definition main ::
  "'c env \<Rightarrow> args \<Rightarrow> string list \<Rightarrow> string list \<Rightarrow> 'c world
   \<Rightarrow> (error + int option \<times> result) \<times> 'c world" where
  "main env a wl al w =
     (case (if mark_requested a then mark a else None) of
        Some m \<Rightarrow>
          (case mark_dir env a (Work m) (Some (Archive m)) w of
             (Inl e, w') \<Rightarrow> (Inl e, w')
           | (Inr i, w') \<Rightarrow> (Inr (None, no_result), w'))
      | None \<Rightarrow>
        (let w1 = w\<lparr>trace := trace w @ [Listed_archive]\<rparr> in
         case known_archive_dirs w1 al of
           Inl e \<Rightarrow> (Inl e, w1)
         | Inr known \<Rightarrow>
             (let w2 = w1\<lparr>trace := trace w1 @ [Listed_work]\<rparr> in
              case scan env a known (sort (filter (\<lambda>n. is_dir w2 (Work n)) wl)) w2 no_result of
                (Inl e, w') \<Rightarrow> (Inl e, w')
              | (Inr r, w') \<Rightarrow>
                  (case run_rsync env a (rsync_todo r) w' of
                     (Inl e, w'') \<Rightarrow> (Inl e, w'')
                   | (Inr u, w'') \<Rightarrow>
                       (if skipped r \<noteq> [] \<and> report_skipped a then (Inr (Some 1, r), w'')
                        else (Inr (Some 0, r), w''))))))"

text \<open>\<^verbatim>\<open>sys.exit(main())\<close>: \<^verbatim>\<open>None\<close> is exit status 0.\<close>

definition exit_status :: "int option \<Rightarrow> int" where
  "exit_status r = (case r of None \<Rightarrow> 0 | Some c \<Rightarrow> c)"

subsection \<open>Notions used to state the properties\<close>

text \<open>The first line of a text, without its line end.\<close>

definition first_line :: "string \<Rightarrow> string" where
  "first_line t = takeWhile (\<lambda>c. c \<noteq> CHR 0x0A \<and> c \<noteq> CHR 0x0D) t"

text \<open>The identity store as the specification words it: \<^emph>\<open>the first non-empty line of
  the sentinel file, or nothing if the file is absent or empty\<close>, trailing white space
  tolerated. This definition follows the specification, not the source.\<close>

fun file_lines :: "string \<Rightarrow> string list" where
  "file_lines [] = []"
| "file_lines (c # cs) =
     (if c = CHR 0x0A \<or> c = CHR 0x0D then [] # file_lines cs
      else (case file_lines cs of [] \<Rightarrow> [[c]] | l # ls \<Rightarrow> (c # l) # ls))"

definition rstrip :: "string \<Rightarrow> string" where
  "rstrip s = rev (dropWhile isspace (rev s))"

definition first_nonempty :: "string \<Rightarrow> string option" where
  "first_nonempty t =
     (case filter (\<lambda>l. l \<noteq> []) (map rstrip (file_lines t)) of
        [] \<Rightarrow> None
      | l # ls \<Rightarrow> Some l)"

definition read_identity_spec :: "'c world \<Rightarrow> path \<Rightarrow> string option" where
  "read_identity_spec w p =
     (case entry_at w p of
        Some (Dir (Content t) c) \<Rightarrow> first_nonempty t
      | Some (Dir (ReadOnly t) c) \<Rightarrow> first_nonempty t
      | _ \<Rightarrow> None)"

text \<open>A sentinel path at which \<^verbatim>\<open>open(id_path, mode="w")\<close> succeeds: nothing is
  there yet, or a regular file that the process may write.\<close>

fun writable :: "sentinel \<Rightarrow> bool" where
  "writable Absent = True"
| "writable Garbled = True"
| "writable (Content t) = True"
| "writable IsDir = False"
| "writable NoAccess = False"
| "writable (ReadOnly t) = False"

text \<open>A directory whose sentinel is a regular file that cannot be read.\<close>

definition unreadable :: "'c world \<Rightarrow> path \<Rightarrow> bool" where
  "unreadable w p =
     (case entry_at w p of
        Some (Dir NoAccess c) \<Rightarrow> True
      | Some (Dir Garbled c) \<Rightarrow> True
      | _ \<Rightarrow> False)"

text \<open>The path is among the names the file system lists for its root.\<close>

fun listed :: "string list \<Rightarrow> string list \<Rightarrow> path \<Rightarrow> bool" where
  "listed wl al (Work n) = (n \<in> set wl)"
| "listed wl al (Archive n) = (n \<in> set al)"

text \<open>Kinds of events, and the order the specification asks for: once \<^verbatim>\<open>rsync\<close>
  has been run for the first time, no directory is renamed any more.\<close>

fun is_wrote :: "event \<Rightarrow> bool" where
  "is_wrote (Wrote p t) = True"
| "is_wrote e = False"

fun is_renamed :: "event \<Rightarrow> bool" where
  "is_renamed (Renamed s d) = True"
| "is_renamed e = False"

fun is_ran :: "event \<Rightarrow> bool" where
  "is_ran (Ran command) = True"
| "is_ran e = False"

fun is_prepass :: "event \<Rightarrow> bool" where
  "is_prepass (Prepass wn an) = True"
| "is_prepass e = False"

definition renames_first :: "event list \<Rightarrow> bool" where
  "renames_first evs = list_all (\<lambda>e. \<not> is_renamed e) (dropWhile (\<lambda>e. \<not> is_ran e) evs)"

text \<open>The events a dry run may leave: no write, no rename, and \<^verbatim>\<open>rsync\<close> only with
  \<^verbatim>\<open>--dry-run\<close>. A mirror honours that flag when it then leaves the destination
  as it was.\<close>

fun is_dry_event :: "event \<Rightarrow> bool" where
  "is_dry_event (Wrote p t) = False"
| "is_dry_event (Renamed s d) = False"
| "is_dry_event (Ran command) = (''--dry-run'' \<in> set command)"
| "is_dry_event e = True"

definition honours_dry_run :: "'c env \<Rightarrow> bool" where
  "honours_dry_run env \<longleftrightarrow>
     (\<forall>command src dst. ''--dry-run'' \<in> set command \<longrightarrow> mirror env command src dst = dst)"

text \<open>Two properties of the outside world that a second run relies on: the mirror,
  run for a pair of the sync plan, leaves at the destination a copy of the source
  directory; and a time stamp begins with a character that is not white space (as
  \<^verbatim>\<open>str(datetime.now())\<close> does, with the year).\<close>

definition mirror_copies :: "'c env \<Rightarrow> args \<Rightarrow> bool" where
  "mirror_copies env a \<longleftrightarrow>
     (\<forall>n src dst. mirror env (rsync_command a n n) (Some src) dst = Some src)"

definition timestamps_printable :: "'c env \<Rightarrow> bool" where
  "timestamps_printable env \<longleftrightarrow> (\<forall>k. now env k \<noteq> [] \<and> \<not> isspace (hd (now env k)))"

subsection \<open>Concrete inputs\<close>

text \<open>A clock, a mirror that copies the source directory unless \<^verbatim>\<open>--dry-run\<close> is
  among its arguments, a renaming pass that finds nothing to rename, the arguments
  \<^verbatim>\<open>w a\<close> with no option set, and file systems given by the entries of the two roots.
  The other entries of a directory are numbers here.\<close>

definition clock :: "nat \<Rightarrow> string" where
  "clock k = ''2024-05-01 10:00:0'' @ replicate k CHR ''0''"

definition copy_mirror ::
  "string list \<Rightarrow> nat entry option \<Rightarrow> nat entry option \<Rightarrow> nat entry option" where
  "copy_mirror command src dst = (if ''--dry-run'' \<in> set command then dst else src)"

definition keep_entries :: "bool \<Rightarrow> nat list \<Rightarrow> nat list \<Rightarrow> error option \<times> nat list" where
  "keep_entries dry wc c = (None, c)"

definition env0 :: "nat env" where
  "env0 = \<lparr>now = clock, mirror = copy_mirror, prepass = keep_entries\<rparr>"

definition args0 :: args where
  "args0 = \<lparr>work_dir = ''w'', archive_dir = ''a'', dry_run = False, report_skipped = False,
     mark = None, mark_new = False, rename = False, verbose = False, rsync_arg = [],
     test_no_rsync = False\<rparr>"

definition world_of :: "(string \<times> 'c entry) list \<Rightarrow> (string \<times> 'c entry) list \<Rightarrow> 'c world" where
  "world_of ws as = \<lparr>work = map_of ws, archive = map_of as, ticks = 0, trace = []\<rparr>"

text \<open>Sentinel texts: a blank first line before \<^verbatim>\<open>abc\<close>; a first line with white
  space around the identity, ended by \<^verbatim>\<open>\r\n\<close>; a blank, a tab and two line ends.\<close>

definition blank_first_line :: string where
  "blank_first_line = [CHR 0x0A, CHR ''a'', CHR ''b'', CHR ''c'']"

definition padded_line :: string where
  "padded_line = '' B1 '' @ [CHR 0x0D, CHR 0x0A] @ ''second''"

definition trailing_space :: string where
  "trailing_space = [CHR '' '', CHR 0x09, CHR 0x0A, CHR 0x0A]"

text \<open>File systems used below. In \<open>skip_world\<close> the unmarked \<^verbatim>\<open>a\<close> meets a regular
  file of the archive; \<open>scenario_world\<close> has a new, a known and a conflicting
  subdirectory; in \<open>rename_world\<close> the work subdirectory \<^verbatim>\<open>a\<close> is known to the archive
  as \<^verbatim>\<open>b\<close>, and in \<open>taken_world\<close> the archive also has a directory \<^verbatim>\<open>a\<close> that is not
  empty; in \<open>dup_world\<close> two work subdirectories carry the same identity; in
  \<open>locked_world\<close> the sentinel of \<^verbatim>\<open>d\<close> is an empty file that may not be written, and
  in \<open>sealed_world\<close> and \<open>guarded_world\<close> the sentinel of the archive's \<^verbatim>\<open>d\<close> may be
  read and not written.\<close>

definition skip_world :: "nat world" where
  "skip_world =
     world_of [(''a'', Dir Absent [1]), (''b'', Dir (Content ''B1'') [2])]
              [(''a'', Other), (''b'', Dir (Content ''B1'') [])]"

definition scenario_world :: "nat world" where
  "scenario_world =
     world_of [(''alpha'', Dir Absent [1]), (''beta'', Dir (Content ''B1'') [2]),
               (''gamma'', Dir Absent [3])]
              [(''beta'', Dir (Content ''B1'') [2]), (''gamma'', Other)]"

definition known_of :: "(string \<times> string) list \<Rightarrow> (string \<rightharpoonup> string)" where
  "known_of ps = map_of ps"

definition conflict_world :: "nat world" where
  "conflict_world = world_of [(''c'', Dir (Content ''C1'') [1])] [(''c'', Other)]"

definition overwrite_world :: "nat world" where
  "overwrite_world = world_of [(''d'', Dir Absent [1])] [(''d'', Dir Absent [2])]"

definition new_world :: "nat world" where
  "new_world = world_of [(''d'', Dir Absent [1])] []"




definition rename_world :: "nat world" where
  "rename_world = world_of [(''a'', Dir (Content ''X'') [1])] [(''b'', Dir (Content ''X'') [2])]"

definition taken_world :: "nat world" where
  "taken_world =
     world_of [(''a'', Dir (Content ''X'') [1])]
              [(''a'', Dir Absent [3]), (''b'', Dir (Content ''X'') [2])]"

definition dup_world :: "nat world" where
  "dup_world =
     world_of [(''a'', Dir (Content ''X'') [1]), (''b'', Dir (Content ''X'') [2])]
              [(''a'', Dir (Content ''X'') [1])]"

section \<open>Properties\<close>

subsection \<open>Reading an identity\<close>

lemma isspace_LF: "isspace (CHR 0x0A)"
  by (simp add: isspace_def)

lemma readline_first_line:
  "readline t = first_line t \<or> readline t = first_line t @ [CHR 0x0A]"
  by (induction t) (auto simp: first_line_def)

lemma strip_snoc_LF: "strip (l @ [CHR 0x0A]) = strip l"
proof (cases "\<forall>c\<in>set l. isspace c")
  case True
  then have a: "dropWhile isspace l = []"
    by (simp add: dropWhile_eq_Nil_conv)
  from True isspace_LF have b: "dropWhile isspace (l @ [CHR 0x0A]) = []"
    unfolding dropWhile_eq_Nil_conv by simp
  from a b show ?thesis by (simp only: strip_def rev.simps dropWhile.simps)
next
  case False
  then have "dropWhile isspace (l @ [CHR 0x0A]) = dropWhile isspace l @ [CHR 0x0A]"
    by (auto simp: dropWhile_append1)
  then show ?thesis using isspace_LF by (simp add: strip_def)
qed

lemma strip_readline: "strip (readline t) = strip (first_line t)"
  using readline_first_line [of t] strip_snoc_LF [of "first_line t"] by auto

lemma read_dir_id_cases:
  "read_dir_id w p =
     (case entry_at w p of
        Some (Dir (Content t) c) \<Rightarrow>
          Inr (if strip (first_line t) = [] then None else Some (strip (first_line t)))
      | Some (Dir (ReadOnly t) c) \<Rightarrow>
          Inr (if strip (first_line t) = [] then None else Some (strip (first_line t)))
      | Some (Dir NoAccess c) \<Rightarrow> Inl PermissionError
      | Some (Dir Garbled c) \<Rightarrow> Inl UnicodeDecodeError
      | _ \<Rightarrow> Inr None)"
  by (simp add: read_dir_id_def isfile_awid_def strip_readline Let_def
           split: option.splits entry.splits sentinel.splits)

lemma strip_append_spaces:
  assumes "\<forall>c\<in>set ws. isspace c"
  shows "strip (l @ ws) = strip l"
proof (cases "\<forall>c\<in>set l. isspace c")
  case True
  with assms have a: "dropWhile isspace (l @ ws) = []"
    unfolding dropWhile_eq_Nil_conv by auto
  from True have b: "dropWhile isspace l = []"
    unfolding dropWhile_eq_Nil_conv by auto
  from a b show ?thesis by (simp only: strip_def rev.simps dropWhile.simps)
next
  case False
  then have 1: "dropWhile isspace (l @ ws) = dropWhile isspace l @ ws"
    by (auto simp: dropWhile_append1)
  from assms have "dropWhile isspace (rev ws @ rev (dropWhile isspace l))
      = dropWhile isspace (rev (dropWhile isspace l))"
    by (intro dropWhile_append2) simp
  with 1 show ?thesis by (simp add: strip_def)
qed

lemma first_line_append_spaces:
  assumes "\<forall>c\<in>set ws. isspace c"
  shows "strip (first_line (t @ ws)) = strip (first_line t)"
proof (cases "\<forall>c\<in>set t. c \<noteq> CHR 0x0A \<and> c \<noteq> CHR 0x0D")
  case True
  then have "first_line (t @ ws) = t @ first_line ws" "first_line t = t"
    by (simp_all add: first_line_def takeWhile_append2)
  moreover have "\<forall>c\<in>set (first_line ws). isspace c"
    using assms by (auto simp: first_line_def dest: set_takeWhileD)
  ultimately show ?thesis using strip_append_spaces by simp
next
  case False
  then have "first_line (t @ ws) = first_line t"
    by (auto simp: first_line_def takeWhile_append1)
  then show ?thesis by simp
qed

text \<open>C7, as amended. Reading the identity of a directory returns the first line of
  the sentinel file with the white space around it removed, when that is not empty.
  It returns \<^verbatim>\<open>None\<close>, and raises nothing, when there is no regular sentinel file
  (no such directory, no file, or a directory in its place) and when the first line is
  blank, whatever follows it. Only a sentinel file that cannot be read raises; whether
  the file can be written makes no difference. White space and line ends added at the
  end of the file do not change what is read.\<close>

theorem read_dir_id_first_line:
  "read_dir_id w p =
     (case entry_at w p of
        Some (Dir (Content t) c) \<Rightarrow>
          Inr (if strip (first_line t) = [] then None else Some (strip (first_line t)))
      | Some (Dir (ReadOnly t) c) \<Rightarrow>
          Inr (if strip (first_line t) = [] then None else Some (strip (first_line t)))
      | Some (Dir NoAccess c) \<Rightarrow> Inl PermissionError
      | Some (Dir Garbled c) \<Rightarrow> Inl UnicodeDecodeError
      | Some (Dir Absent c) \<Rightarrow> Inr None
      | Some (Dir IsDir c) \<Rightarrow> Inr None
      | Some Other \<Rightarrow> Inr None
      | None \<Rightarrow> Inr None)
   \<and> (list_all isspace ws \<longrightarrow>
        read_dir_id (put_entry p (Some (Dir (Content (t @ ws)) c)) w) p
          = read_dir_id (put_entry p (Some (Dir (Content t) c)) w) p)"
proof
  show "read_dir_id w p =
     (case entry_at w p of
        Some (Dir (Content t) c) \<Rightarrow>
          Inr (if strip (first_line t) = [] then None else Some (strip (first_line t)))
      | Some (Dir (ReadOnly t) c) \<Rightarrow>
          Inr (if strip (first_line t) = [] then None else Some (strip (first_line t)))
      | Some (Dir NoAccess c) \<Rightarrow> Inl PermissionError
      | Some (Dir Garbled c) \<Rightarrow> Inl UnicodeDecodeError
      | Some (Dir Absent c) \<Rightarrow> Inr None
      | Some (Dir IsDir c) \<Rightarrow> Inr None
      | Some Other \<Rightarrow> Inr None
      | None \<Rightarrow> Inr None)"
    by (simp add: read_dir_id_cases split: option.splits entry.splits sentinel.splits)
  show "list_all isspace ws \<longrightarrow>
        read_dir_id (put_entry p (Some (Dir (Content (t @ ws)) c)) w) p
          = read_dir_id (put_entry p (Some (Dir (Content t) c)) w) p"
  proof
    assume "list_all isspace ws"
    then have "strip (first_line (t @ ws)) = strip (first_line t)"
      by (intro first_line_append_spaces) (simp add: list_all_iff)
    then show "read_dir_id (put_entry p (Some (Dir (Content (t @ ws)) c)) w) p
          = read_dir_id (put_entry p (Some (Dir (Content t) c)) w) p"
      by (cases p) (simp_all add: read_dir_id_cases)
  qed
qed

text \<open>C7, witness: a first line with white space on both sides and a \<^verbatim>\<open>\r\n\<close>
  line end, followed by a second line; and an identity followed by a blank, a tab and
  two line ends.\<close>

theorem read_dir_id_first_line_witness:
  "read_dir_id (world_of [(''b'', Dir (Content padded_line) [0::nat])] []) (Work ''b'')
     = Inr (Some ''B1'')
   \<and> list_all isspace trailing_space
   \<and> read_dir_id (put_entry (Work ''b'') (Some (Dir (Content (''B1'' @ trailing_space)) [0::nat]))
         (world_of [] [])) (Work ''b'')
     = Inr (Some ''B1'')"
proof -
  have s: "list_all isspace trailing_space"
    by (simp add: trailing_space_def isspace_def)
  have b: "read_dir_id (put_entry (Work ''b'') (Some (Dir (Content ''B1'') [0::nat]))
         (world_of [] [])) (Work ''b'') = Inr (Some ''B1'')"
    by (simp add: read_dir_id_def isfile_awid_def strip_def isspace_def)
  from read_dir_id_first_line
    [where w = "world_of [(''b'', Dir (Content padded_line) [0::nat])] []" and p = "Work ''b''"]
  have 1: "read_dir_id (world_of [(''b'', Dir (Content padded_line) [0::nat])] []) (Work ''b'')
     = Inr (Some ''B1'')"
    by (simp add: world_of_def padded_line_def first_line_def strip_def isspace_def)
  from read_dir_id_first_line
    [where w = "world_of [] []" and p = "Work ''b''" and ws = trailing_space and t = "''B1''"
      and c = "[0::nat]"] s b
  have 2: "read_dir_id (put_entry (Work ''b'') (Some (Dir (Content (''B1'' @ trailing_space)) [0::nat]))
         (world_of [] [])) (Work ''b'') = Inr (Some ''B1'')"
    by simp
  from 1 s 2 show ?thesis by simp
qed

text \<open>C7, counterexample to the claim as stated: when the first line of the sentinel
  file is blank and the second is \<^verbatim>\<open>abc\<close>, the first non-empty line is \<^verbatim>\<open>abc\<close>,
  and the program reads no identity.\<close>

theorem read_dir_id_blank_first_line:
  "read_identity_spec (world_of [(''d'', Dir (Content blank_first_line) [0::nat])] []) (Work ''d'')
     = Some ''abc''
   \<and> read_dir_id (world_of [(''d'', Dir (Content blank_first_line) [0::nat])] []) (Work ''d'')
     = Inr None"
  by (simp add: read_dir_id_def isfile_awid_def world_of_def blank_first_line_def strip_def
        isspace_def read_identity_spec_def first_nonempty_def rstrip_def)

subsection \<open>Paths and the renaming pass\<close>

text \<open>The root \<^verbatim>\<open>.\<close> is not printed in front of a name, and the root of the file
  system is not followed by a second separator.\<close>

lemma path_str_roots:
  "path_str (a\<lparr>work_dir := ''.''\<rparr>) (Work n) = n"
  "path_str (a\<lparr>work_dir := ''w''\<rparr>) (Work n) = ''w/'' @ n"
  "path_str (a\<lparr>archive_dir := ''/''\<rparr>) (Archive n) = ''/'' @ n"
  by simp_all

text \<open>When the renaming pass raises in a run that is not a dry run, the renames it has
  made below the archive subdirectory stay.\<close>

lemma attempt_renames_raises:
  assumes "archive w an = Some (Dir s c)" and "work w wn = Some (Dir ws wc)"
    and "prepass env (dry_run a) wc c = (Some e, c')" and "\<not> dry_run a"
  shows "attempt_renames env a wn an w =
           (Inl e, w\<lparr>archive := (archive w)(an \<mapsto> Dir s c'),
                     trace := trace w @ [Prepass wn an]\<rparr>)"
  using assms by (simp add: attempt_renames_def)

subsection \<open>What a call leaves untouched\<close>

lemma entry_at_put_entry [simp]:
  "entry_at (put_entry q e w) p = (if p = q then e else entry_at w p)"
  by (cases p; cases q) auto

lemma entry_at_trace [simp]: "entry_at (w\<lparr>trace := t\<rparr>) p = entry_at w p"
  by (cases p) auto

lemma entry_at_ticks [simp]: "entry_at (w\<lparr>ticks := k\<rparr>) p = entry_at w p"
  by (cases p) auto

lemma write_id_frame:
  "write_id q i w = (x, w') \<Longrightarrow> p \<noteq> q \<Longrightarrow> entry_at w' p = entry_at w p"
  by (auto simp: write_id_def split: sum.splits)

lemma mark_paths_frame:
  "mark_paths a i ps w = (x, w') \<Longrightarrow> p \<notin> set ps \<Longrightarrow> entry_at w' p = entry_at w p"
proof (induction ps arbitrary: w)
  case Nil
  then show ?case by simp
next
  case (Cons q ps)
  show ?case
  proof (cases "dry_run a")
    case True
    with Cons show ?thesis by simp
  next
    case False
    obtain y w1 where s: "write_id q i w = (y, w1)" by (cases "write_id q i w")
    from Cons.prems have pq: "p \<noteq> q" by simp
    show ?thesis
    proof (cases y)
      case (Inl e)
      with s False Cons.prems have "w' = w1" by simp
      with write_id_frame [OF s pq] show ?thesis by simp
    next
      case (Inr u)
      with s False Cons.prems have "mark_paths a i ps w1 = (x, w')" by simp
      from Cons.IH [OF this] Cons.prems write_id_frame [OF s pq] show ?thesis by simp
    qed
  qed
qed

lemma mark_dir_frame:
  "mark_dir env a p1 p2 w = (x, w') \<Longrightarrow> p \<noteq> p1 \<Longrightarrow> p2 \<noteq> Some p
   \<Longrightarrow> entry_at w' p = entry_at w p"
proof -
  assume m: "mark_dir env a p1 p2 w = (x, w')" and n: "p \<noteq> p1" "p2 \<noteq> Some p"
  let ?ps = "p1 # (case p2 of None \<Rightarrow> [] | Some q \<Rightarrow> [q])"
  obtain y w1 where
    s: "mark_paths a (fresh_id env a p1 w) ?ps (w\<lparr>ticks := Suc (ticks w)\<rparr>) = (y, w1)"
    by (cases "mark_paths a (fresh_id env a p1 w) ?ps (w\<lparr>ticks := Suc (ticks w)\<rparr>)")
  from n have "p \<notin> set ?ps" by (auto split: option.splits)
  from mark_paths_frame [OF s this] have "entry_at w1 p = entry_at w p" by simp
  moreover from m s have "w' = w1" by (auto simp: mark_dir_def Let_def split: sum.splits)
  ultimately show ?thesis by simp
qed

lemma os_rename_work: "os_rename s d w = (x, w') \<Longrightarrow> work w' = work w"
  by (auto simp: os_rename_def moved_def split: option.splits entry.splits if_splits)

lemma os_rename_archive:
  "os_rename s d w = (x, w') \<Longrightarrow> m \<noteq> s \<Longrightarrow> m \<noteq> d \<Longrightarrow> archive w' m = archive w m"
  by (auto simp: os_rename_def moved_def split: option.splits entry.splits if_splits)

lemma scan_step_work:
  assumes "scan_step env a known n w = (x, w')" and "m \<noteq> n"
  shows "work w' m = work w m"
proof -
  have "entry_at w' (Work m) = entry_at w (Work m)"
    using assms
    by (auto simp: scan_step_def split: sum.splits option.splits if_splits prod.splits
          dest: os_rename_work mark_dir_frame [where p = "Work m"])
  then show ?thesis by simp
qed

subsection \<open>A sentinel that cannot be read\<close>

lemma scan_fails:
  "n \<in> set ns \<Longrightarrow> unreadable w (Work n) \<Longrightarrow> \<exists>e w'. scan env a known ns w r = (Inl e, w')"
proof (induction ns arbitrary: w r)
  case Nil
  then show ?case by simp
next
  case (Cons m ns)
  obtain x w1 where s: "scan_step env a known m w = (x, w1)"
    by (cases "scan_step env a known m w")
  show ?case
  proof (cases x)
    case (Inl e)
    with s show ?thesis by simp
  next
    case (Inr d)
    have "m \<noteq> n"
    proof
      assume "m = n"
      with Cons.prems(2) s Inr show False
        by (auto simp: scan_step_def unreadable_def read_dir_id_cases
              split: option.splits entry.splits sentinel.splits)
    qed
    with Cons.prems(1) have "n \<in> set ns" by auto
    moreover from scan_step_work [OF s \<open>m \<noteq> n\<close> [symmetric]] Cons.prems(2)
    have "unreadable w1 (Work n)" by (simp add: unreadable_def)
    ultimately obtain e w' where "scan env a known ns w1 (record_decision m d r) = (Inl e, w')"
      using Cons.IH by blast
    with s Inr show ?thesis by simp
  qed
qed

lemma collect_known_fails:
  "n \<in> set ns \<Longrightarrow> unreadable w (Archive n) \<Longrightarrow> \<exists>e. collect_known w ns known = Inl e"
proof (induction ns arbitrary: known)
  case Nil
  then show ?case by simp
next
  case (Cons m ns)
  show ?case
  proof (cases "m = n")
    case True
    with Cons.prems(2) show ?thesis
      by (auto simp: unreadable_def read_dir_id_cases
            split: option.splits entry.splits sentinel.splits)
  next
    case False
    with Cons show ?thesis by (auto split: sum.splits option.splits)
  qed
qed

lemma unreadable_is_dir: "unreadable w p \<Longrightarrow> is_dir w p"
  by (auto simp: unreadable_def is_dir_def split: option.splits entry.splits sentinel.splits)

text \<open>C8, as amended. When the sentinel file of a listed work or archive subdirectory
  exists and cannot be read (no permission, or bytes that do not decode), reading its
  identity raises, and nothing catches the exception: a run that scans (no single
  directory to mark) ends with an error. The directory is not treated as unmarked.\<close>

theorem unreadable_sentinel_aborts_run:
  assumes "unreadable w p" and "listed wl al p" and "\<not> mark_requested a"
  shows "(\<exists>e. read_dir_id w p = Inl e) \<and> (\<exists>e w'. main env a wl al w = (Inl e, w'))"
proof
  from assms(1) show "\<exists>e. read_dir_id w p = Inl e"
    by (auto simp: unreadable_def read_dir_id_cases
          split: option.splits entry.splits sentinel.splits)
next
  let ?w1 = "w\<lparr>trace := trace w @ [Listed_archive]\<rparr>"
  let ?w2 = "?w1\<lparr>trace := trace ?w1 @ [Listed_work]\<rparr>"
  have u1: "unreadable ?w1 p" and u2: "unreadable ?w2 p"
    using assms(1) by (simp_all add: unreadable_def)
  show "\<exists>e w'. main env a wl al w = (Inl e, w')"
  proof (cases "known_archive_dirs ?w1 al")
    case (Inl e)
    with assms(3) show ?thesis by (simp add: main_def Let_def)
  next
    case (Inr known)
    obtain n where p: "p = Work n"
    proof (cases p)
      case (Work n)
      then show ?thesis using that by simp
    next
      case (Archive n)
      with assms(2) u1 unreadable_is_dir [OF u1]
      have "n \<in> set (filter (\<lambda>n. is_dir ?w1 (Archive n)) al)" "unreadable ?w1 (Archive n)"
        by simp_all
      from collect_known_fails [OF this, of Map.empty] Inr show ?thesis
        by (simp add: known_archive_dirs_def)
    qed
    with assms(2) u2 unreadable_is_dir [OF u2]
    have "n \<in> set (sort (filter (\<lambda>n. is_dir ?w2 (Work n)) wl))" "unreadable ?w2 (Work n)"
      by simp_all
    from scan_fails [OF this]
    obtain e w' where
      "scan env a known (sort (filter (\<lambda>n. is_dir ?w2 (Work n)) wl)) ?w2 no_result = (Inl e, w')"
      by blast
    with Inr assms(3) show ?thesis by (simp add: main_def Let_def)
  qed
qed

text \<open>C8, witness: a work subdirectory whose sentinel does not decode.\<close>

theorem unreadable_sentinel_aborts_run_witness:
  "unreadable (world_of [(''d'', Dir Garbled [0::nat])] []) (Work ''d'')
   \<and> listed [''d''] [] (Work ''d'') \<and> \<not> mark_requested args0
   \<and> (\<exists>e. read_dir_id (world_of [(''d'', Dir Garbled [0::nat])] []) (Work ''d'') = Inl e)
   \<and> (\<exists>e w'. main env0 args0 [''d''] [] (world_of [(''d'', Dir Garbled [0::nat])] [])
               = (Inl e, w'))"
proof -
  have h: "unreadable (world_of [(''d'', Dir Garbled [0::nat])] []) (Work ''d'')"
    "listed [''d''] [] (Work ''d'')" "\<not> mark_requested args0"
    by (simp_all add: unreadable_def world_of_def mark_requested_def args0_def)
  from unreadable_sentinel_aborts_run [OF h] h show ?thesis by blast
qed

text \<open>C8, counterexample to the claim as stated: the sentinel file of the work
  subdirectory \<^verbatim>\<open>d\<close> may not be read; the read raises \<^verbatim>\<open>PermissionError\<close> instead
  of returning no identity, and the run ends with that exception.\<close>

theorem unreadable_sentinel_raises:
  "read_dir_id (world_of [(''d'', Dir NoAccess [0::nat])] []) (Work ''d'') = Inl PermissionError
   \<and> fst (main env0 args0 [''d''] [] (world_of [(''d'', Dir NoAccess [0::nat])] []))
     = Inl PermissionError"
  by (simp add: read_dir_id_def isfile_awid_def world_of_def main_def mark_requested_def
        args0_def known_archive_dirs_def is_dir_def scan_step_def)

subsection \<open>The exit status\<close>

text \<open>C9. When the run completes, the exit status is 0 if no entry was skipped or
  reporting skipped entries as an error was not requested, and it is not 0 exactly
  when at least one entry was skipped and the reporting was requested.\<close>

theorem main_exit_status:
  assumes "main env a wl al w = (Inr (rc, r), w')"
  shows "(exit_status rc = 0 \<longleftrightarrow> skipped r = [] \<or> \<not> report_skipped a)
       \<and> (exit_status rc \<noteq> 0 \<longleftrightarrow> skipped r \<noteq> [] \<and> report_skipped a)"
  using assms
  by (auto simp: main_def Let_def exit_status_def no_result_def
        split: option.splits sum.splits prod.splits if_splits)

text \<open>C9, witness: with \<^verbatim>\<open>--report-skipped\<close>, the unmarked \<^verbatim>\<open>a\<close> collides with a
  file of the archive and is skipped, \<^verbatim>\<open>b\<close> is synced again; the exit status is 1.\<close>

theorem main_exit_status_witness:
  "main env0 (args0\<lparr>report_skipped := True\<rparr>) [''b'', ''a''] [''a'', ''b''] skip_world =
     (Inr (Some 1,
        \<lparr>logged = [(''a'', NEW_CONFLICT_SKIP), (''b'', RESYNC)],
         rsync_todo = [(''b'', ''b'')],
         skipped = [(''a'', NEW_CONFLICT_SKIP)]\<rparr>),
      skip_world\<lparr>archive := (archive skip_world)(''b'' \<mapsto> Dir (Content ''B1'') [2]),
        trace := [Listed_archive, Listed_work,
                  Ran [''rsync'', ''-a'', ''--delete'', ''w/b/'', ''a/b'']]\<rparr>)
   \<and> exit_status (Some 1) \<noteq> 0"
proof -
  have run: "main env0 (args0\<lparr>report_skipped := True\<rparr>) [''b'', ''a''] [''a'', ''b''] skip_world =
     (Inr (Some 1,
        \<lparr>logged = [(''a'', NEW_CONFLICT_SKIP), (''b'', RESYNC)],
         rsync_todo = [(''b'', ''b'')],
         skipped = [(''a'', NEW_CONFLICT_SKIP)]\<rparr>),
      skip_world\<lparr>archive := (archive skip_world)(''b'' \<mapsto> Dir (Content ''B1'') [2]),
        trace := [Listed_archive, Listed_work,
                  Ran [''rsync'', ''-a'', ''--delete'', ''w/b/'', ''a/b'']]\<rparr>)"
    by (simp add: main_def mark_requested_def args0_def known_archive_dirs_def is_dir_def
          scan_step_def skip_world_def world_of_def read_dir_id_def isfile_awid_def strip_def
          isspace_def path_exists_def no_result_def record_decision_def env0_def rsync_dir_def
          rsync_command_def RSYNC_FLAGS_def copy_mirror_def)
  from main_exit_status [OF run] run show ?thesis by simp
qed

subsection \<open>The shape of a run\<close>

lemma record_decision_lists:
  "\<exists>xs ys. rsync_todo (record_decision n d r) = rsync_todo r @ xs
     \<and> skipped (record_decision n d r) = skipped r @ ys
     \<and> fst ` set xs \<subseteq> {n} \<and> fst ` set ys \<subseteq> {n}
     \<and> length xs \<le> 1 \<and> length ys \<le> 1"
  by (cases "snd d") (simp_all add: record_decision_def)

lemma scan_sorted:
  "scan env a known ns w r = (Inr r', w') \<Longrightarrow> sorted ns \<Longrightarrow>
   \<exists>xs ys. rsync_todo r' = rsync_todo r @ xs \<and> skipped r' = skipped r @ ys
     \<and> sorted (map fst xs) \<and> sorted (map fst ys)
     \<and> fst ` set xs \<subseteq> set ns \<and> fst ` set ys \<subseteq> set ns"
proof (induction ns arbitrary: w r)
  case Nil
  then show ?case by simp
next
  case (Cons n ns)
  obtain x w1 where s: "scan_step env a known n w = (x, w1)"
    by (cases "scan_step env a known n w")
  with Cons.prems(1) obtain d where d: "x = Inr d"
    and rest: "scan env a known ns w1 (record_decision n d r) = (Inr r', w')"
    by (cases x) auto
  from Cons.prems(2) have sn: "sorted ns" and le: "\<forall>m\<in>set ns. n \<le> m" by simp_all
  from Cons.IH [OF rest sn] obtain xs ys where
    1: "rsync_todo r' = rsync_todo (record_decision n d r) @ xs"
       "skipped r' = skipped (record_decision n d r) @ ys"
       "sorted (map fst xs)" "sorted (map fst ys)"
       "fst ` set xs \<subseteq> set ns" "fst ` set ys \<subseteq> set ns"
    by blast
  from record_decision_lists [of n d r] obtain xs0 ys0 where
    2: "rsync_todo (record_decision n d r) = rsync_todo r @ xs0"
       "skipped (record_decision n d r) = skipped r @ ys0"
       "fst ` set xs0 \<subseteq> {n}" "fst ` set ys0 \<subseteq> {n}" "length xs0 \<le> 1" "length ys0 \<le> 1"
    by blast
  have one: "sorted (map fst zs0 @ map fst zs)"
    if "fst ` set zs0 \<subseteq> {n}" "length zs0 \<le> 1" "sorted (map fst zs)" "fst ` set zs \<subseteq> set ns"
    for zs0 zs :: "(string \<times> 'b) list"
    using that le by (cases zs0) (auto simp: sorted_append)
  have a: "rsync_todo r' = rsync_todo r @ (xs0 @ xs)" "skipped r' = skipped r @ (ys0 @ ys)"
    using 1 2 by simp_all
  have b: "sorted (map fst (xs0 @ xs))" "sorted (map fst (ys0 @ ys))"
    using one [OF 2(3) 2(5) 1(3) 1(5)] one [OF 2(4) 2(6) 1(4) 1(6)] by simp_all
  have c: "fst ` set (xs0 @ xs) \<subseteq> set (n # ns)" "fst ` set (ys0 @ ys) \<subseteq> set (n # ns)"
    using 1(5,6) 2(3,4) by auto
  show ?case
    by (rule exI [of _ "xs0 @ xs"], rule exI [of _ "ys0 @ ys"]) (intro conjI a b c)
qed

lemma main_mark_result:
  assumes "mark_requested a" and "main env a wl al w = (Inr (rc, r), w')"
  shows "\<exists>m i. mark a = Some m \<and> m \<noteq> []
      \<and> mark_dir env a (Work m) (Some (Archive m)) w = (Inr i, w')
      \<and> rc = None \<and> r = no_result"
proof -
  from assms(1) obtain m where m: "mark a = Some m" "m \<noteq> []"
    by (auto simp: mark_requested_def split: option.splits)
  obtain x w1 where d: "mark_dir env a (Work m) (Some (Archive m)) w = (x, w1)"
    by (cases "mark_dir env a (Work m) (Some (Archive m)) w")
  from assms m d show ?thesis
    by (cases x) (simp_all add: main_def)
qed

lemma main_scan:
  assumes "\<not> mark_requested a"
    and "main env a wl al w = (Inr (rc, r), w')"
  shows "\<exists>known w1.
      known_archive_dirs (w\<lparr>trace := trace w @ [Listed_archive]\<rparr>) al = Inr known
    \<and> scan env a known
        (sort (filter (\<lambda>n. is_dir w (Work n)) wl))
        (w\<lparr>trace := trace w @ [Listed_archive, Listed_work]\<rparr>) no_result = (Inr r, w1)
    \<and> run_rsync env a (rsync_todo r) w1 = (Inr (), w')
    \<and> rc = Some (if skipped r \<noteq> [] \<and> report_skipped a then 1 else 0)"
proof -
  let ?w1 = "w\<lparr>trace := trace w @ [Listed_archive]\<rparr>"
  let ?w2 = "w\<lparr>trace := trace w @ [Listed_archive, Listed_work]\<rparr>"
  let ?ns = "sort (filter (\<lambda>n. is_dir w (Work n)) wl)"
  have ns: "sort (filter (\<lambda>n. is_dir (?w1\<lparr>trace := trace ?w1 @ [Listed_work]\<rparr>) (Work n)) wl) = ?ns"
    by (simp add: is_dir_def)
  have m: "main env a wl al w =
    (case known_archive_dirs ?w1 al of
       Inl e \<Rightarrow> (Inl e, ?w1)
     | Inr known \<Rightarrow>
         (case scan env a known ?ns ?w2 no_result of
            (Inl e, w') \<Rightarrow> (Inl e, w')
          | (Inr r, w') \<Rightarrow>
              (case run_rsync env a (rsync_todo r) w' of
                 (Inl e, w'') \<Rightarrow> (Inl e, w'')
               | (Inr u, w'') \<Rightarrow>
                   (if skipped r \<noteq> [] \<and> report_skipped a then (Inr (Some 1, r), w'')
                    else (Inr (Some 0, r), w'')))))"
    using assms(1)
    by (cases "known_archive_dirs ?w1 al") (simp_all add: main_def Let_def is_dir_def)
  obtain known where k: "known_archive_dirs ?w1 al = Inr known"
    using assms(2) by (cases "known_archive_dirs ?w1 al") (simp_all add: m)
  obtain x w1 where s: "scan env a known ?ns ?w2 no_result = (x, w1)"
    by (cases "scan env a known ?ns ?w2 no_result")
  obtain r1 where x: "x = Inr r1"
    using assms(2) by (cases x) (simp_all add: m k s)
  obtain y w2 where t: "run_rsync env a (rsync_todo r1) w1 = (y, w2)"
    by (cases "run_rsync env a (rsync_todo r1) w1")
  have "y = Inr () \<and> r1 = r \<and> w2 = w'
      \<and> rc = Some (if skipped r \<noteq> [] \<and> report_skipped a then 1 else 0)"
    using assms(2) by (cases y) (auto simp: m k s x t split: if_splits)
  with k s x t show ?thesis by blast
qed

subsection \<open>The order of the lists\<close>

text \<open>C5. In every run that completes, the entries of \<^verbatim>\<open>rsync_todo\<close> (the sync
  plan) and of \<^verbatim>\<open>skipped\<close> are each in lexicographic order of the name of the work
  subdirectory, and the whole run is the same for every order in which the file
  system lists the names of the work root.\<close>

theorem plan_sorted_by_name:
  assumes "main env a wl al w = (Inr (rc, r), w')"
  shows "sorted (map fst (rsync_todo r)) \<and> sorted (map fst (skipped r))
       \<and> (\<forall>wl'. mset wl' = mset wl \<longrightarrow> main env a wl' al w = main env a wl al w)"
proof -
  have perm: "main env a wl' al w = main env a wl al w" if "mset wl' = mset wl" for wl'
  proof -
    have h: "sort (filter P wl') = sort (filter P wl)" for P
      using that by (intro properties_for_sort) simp_all
    show ?thesis unfolding main_def h ..
  qed
  show ?thesis
  proof (cases "mark_requested a")
    case True
    from main_mark_result [OF this assms] have "r = no_result"
      by blast
    then have "sorted (map fst (rsync_todo r))" "sorted (map fst (skipped r))"
      by (simp_all add: no_result_def)
    then show ?thesis using perm by blast
  next
    case False
    from main_scan [OF False assms] obtain known w1 where
      "scan env a known (sort (filter (\<lambda>n. is_dir w (Work n)) wl))
         (w\<lparr>trace := trace w @ [Listed_archive, Listed_work]\<rparr>) no_result = (Inr r, w1)"
      by blast
    from scan_sorted [OF this] obtain xs ys where
      "rsync_todo r = rsync_todo no_result @ xs" "skipped r = skipped no_result @ ys"
      "sorted (map fst xs)" "sorted (map fst ys)"
      by force
    then have "sorted (map fst (rsync_todo r))" "sorted (map fst (skipped r))"
      by (simp_all add: no_result_def)
    then show ?thesis using perm by blast
  qed
qed


text \<open>C5, witness: three work subdirectories listed as \<^verbatim>\<open>gamma, beta, alpha\<close>.\<close>

theorem plan_sorted_by_name_witness:
  "fst (main env0 args0 [''gamma'', ''beta'', ''alpha''] [''gamma'', ''beta''] scenario_world) =
     Inr (Some 0,
        \<lparr>logged = [(''alpha'', NEW), (''beta'', RESYNC), (''gamma'', NEW_CONFLICT_SKIP)],
         rsync_todo = [(''alpha'', ''alpha''), (''beta'', ''beta'')],
         skipped = [(''gamma'', NEW_CONFLICT_SKIP)]\<rparr>)
   \<and> sorted [''alpha'', ''beta''] \<and> sorted [''gamma'']
   \<and> main env0 args0 [''alpha'', ''gamma'', ''beta''] [''gamma'', ''beta''] scenario_world
     = main env0 args0 [''gamma'', ''beta'', ''alpha''] [''gamma'', ''beta''] scenario_world"
proof -
  obtain x w' where
    run: "main env0 args0 [''gamma'', ''beta'', ''alpha''] [''gamma'', ''beta''] scenario_world
            = (x, w')"
    by (cases "main env0 args0 [''gamma'', ''beta'', ''alpha''] [''gamma'', ''beta''] scenario_world")
  have "fst (main env0 args0 [''gamma'', ''beta'', ''alpha''] [''gamma'', ''beta''] scenario_world) =
     Inr (Some 0,
        \<lparr>logged = [(''alpha'', NEW), (''beta'', RESYNC), (''gamma'', NEW_CONFLICT_SKIP)],
         rsync_todo = [(''alpha'', ''alpha''), (''beta'', ''beta'')],
         skipped = [(''gamma'', NEW_CONFLICT_SKIP)]\<rparr>)"
    by (simp add: main_def mark_requested_def args0_def known_archive_dirs_def is_dir_def
          scan_step_def scenario_world_def world_of_def read_dir_id_def isfile_awid_def
          strip_def isspace_def path_exists_def no_result_def record_decision_def env0_def
          rsync_dir_def rsync_command_def RSYNC_FLAGS_def copy_mirror_def mark_dir_def
          fresh_id_def write_id_def clock_def Let_def)
  with run have x: "x = Inr (Some 0,
        \<lparr>logged = [(''alpha'', NEW), (''beta'', RESYNC), (''gamma'', NEW_CONFLICT_SKIP)],
         rsync_todo = [(''alpha'', ''alpha''), (''beta'', ''beta'')],
         skipped = [(''gamma'', NEW_CONFLICT_SKIP)]\<rparr>)"
    by simp
  have "mset [''alpha'', ''gamma'', ''beta''] = mset [''gamma'', ''beta'', ''alpha'']"
    by simp
  with plan_sorted_by_name [OF run [unfolded x]] run x show ?thesis
    by simp
qed

subsection \<open>Work subdirectories without an identity, and name conflicts\<close>

lemma mark_paths_dry: "dry_run a \<Longrightarrow> mark_paths a i ps w = (Inr (), w)"
  by (induction ps) simp_all

lemma mark_dir_dry:
  "dry_run a \<Longrightarrow>
   mark_dir env a p1 p2 w = (Inr (fresh_id env a p1 w), w\<lparr>ticks := Suc (ticks w)\<rparr>)"
  by (simp add: mark_dir_def Let_def mark_paths_dry)

text \<open>C10, as amended. The two same-name checks of the scan test that the path exists,
  not that it is a directory (symbolic links are left aside: a link that leads nowhere
  does not exist for this test). Whatever exists at the same name in the archive root
  when the scan reaches the work subdirectory \<open>n\<close> (a directory or, say, a regular file):
  a marked \<open>n\<close> whose identity is not in the index is skipped as a conflict; an unmarked
  \<open>n\<close> is skipped as a new directory in conflict when \<^verbatim>\<open>--mark-new\<close> is not given;
  and in no case is \<open>n\<close> classified as new or as to be restored. With \<^verbatim>\<open>--mark-new\<close>
  an unmarked \<open>n\<close> is classified \<open>NEW_CONFLICT_OVERWRITE\<close> in a dry run, whatever the
  archive entry is; in a run that is not a dry run an archive entry that is not a
  directory ends the run with \<^verbatim>\<open>NotADirectoryError\<close>, after the work subdirectory
  (its sentinel path being writable) has been marked.\<close>

theorem conflict_checks_test_existence:
  assumes "archive w n = Some e"
  shows "(read_dir_id w (Work n) = Inr None \<and> \<not> mark_new a \<longrightarrow>
            scan_step env a known n w = (Inr (NEW_CONFLICT_SKIP, None), w))
       \<and> (read_dir_id w (Work n) = Inr (Some i) \<and> known i = None \<longrightarrow>
            scan_step env a known n w = (Inr (CONFLICT_SKIP, None), w))
       \<and> (\<forall>t w'. scan_step env a known n w \<noteq> (Inr (NEW, t), w')
                \<and> scan_step env a known n w \<noteq> (Inr (RESTORE, t), w'))
       \<and> (read_dir_id w (Work n) = Inr None \<and> mark_new a \<and> dry_run a \<longrightarrow>
            scan_step env a known n w =
              (Inr (NEW_CONFLICT_OVERWRITE, Some n), w\<lparr>ticks := Suc (ticks w)\<rparr>))
       \<and> (read_dir_id w (Work n) = Inr None \<and> mark_new a \<and> \<not> dry_run a \<and> e = Other
            \<and> work w n = Some (Dir s c) \<and> writable s \<longrightarrow>
            scan_step env a known n w =
              (Inl NotADirectoryError,
               w\<lparr>work := (work w)(n \<mapsto> Dir (Content (fresh_id env a (Work n) w)) c),
                 ticks := Suc (ticks w),
                 trace := trace w @ [Wrote (Work n) (fresh_id env a (Work n) w)]\<rparr>))"
proof -
  have 1: "read_dir_id w (Work n) = Inr None \<and> \<not> mark_new a \<longrightarrow>
            scan_step env a known n w = (Inr (NEW_CONFLICT_SKIP, None), w)"
    using assms by (simp add: scan_step_def path_exists_def)
  have 2: "read_dir_id w (Work n) = Inr (Some i) \<and> known i = None \<longrightarrow>
            scan_step env a known n w = (Inr (CONFLICT_SKIP, None), w)"
    using assms by (simp add: scan_step_def path_exists_def)
  have 3: "\<forall>t w'. scan_step env a known n w \<noteq> (Inr (NEW, t), w')
                \<and> scan_step env a known n w \<noteq> (Inr (RESTORE, t), w')"
    using assms
    by (auto simp: scan_step_def path_exists_def split: sum.splits option.splits prod.splits)
  have 4: "read_dir_id w (Work n) = Inr None \<and> mark_new a \<and> dry_run a \<longrightarrow>
            scan_step env a known n w =
              (Inr (NEW_CONFLICT_OVERWRITE, Some n), w\<lparr>ticks := Suc (ticks w)\<rparr>)"
    using assms by (simp add: scan_step_def path_exists_def mark_dir_dry)
  have 5: "scan_step env a known n w =
              (Inl NotADirectoryError,
               w\<lparr>work := (work w)(n \<mapsto> Dir (Content (fresh_id env a (Work n) w)) c),
                 ticks := Suc (ticks w),
                 trace := trace w @ [Wrote (Work n) (fresh_id env a (Work n) w)]\<rparr>)"
    if "read_dir_id w (Work n) = Inr None" "mark_new a" "\<not> dry_run a" "e = Other"
      "work w n = Some (Dir s c)" "writable s"
    using assms that
    by (cases s) (simp_all add: scan_step_def path_exists_def mark_dir_def Let_def write_id_def)
  from 1 2 3 4 5 show ?thesis by blast
qed

text \<open>C10, witness: the archive holds a regular file \<^verbatim>\<open>a\<close> beside the unmarked
  work subdirectory \<^verbatim>\<open>a\<close>, and a regular file \<^verbatim>\<open>c\<close> beside the marked work
  subdirectory \<^verbatim>\<open>c\<close> whose identity no archive subdirectory has.\<close>

theorem conflict_checks_test_existence_witness:
  "archive skip_world ''a'' = Some Other
   \<and> read_dir_id skip_world (Work ''a'') = Inr None \<and> \<not> mark_new args0
   \<and> scan_step env0 args0 (known_of []) ''a'' skip_world
       = (Inr (NEW_CONFLICT_SKIP, None), skip_world)
   \<and> archive conflict_world ''c'' = Some Other
   \<and> read_dir_id conflict_world (Work ''c'') = Inr (Some ''C1'') \<and> known_of [] ''C1'' = None
   \<and> scan_step env0 args0 (known_of []) ''c'' conflict_world
       = (Inr (CONFLICT_SKIP, None), conflict_world)
   \<and> mark_new (args0\<lparr>mark_new := True, dry_run := True\<rparr>)
   \<and> dry_run (args0\<lparr>mark_new := True, dry_run := True\<rparr>)
   \<and> scan_step env0 (args0\<lparr>mark_new := True, dry_run := True\<rparr>) (known_of []) ''a'' skip_world
       = (Inr (NEW_CONFLICT_OVERWRITE, Some ''a''), skip_world\<lparr>ticks := 1\<rparr>)
   \<and> mark_new (args0\<lparr>mark_new := True\<rparr>) \<and> \<not> dry_run (args0\<lparr>mark_new := True\<rparr>)
   \<and> work skip_world ''a'' = Some (Dir Absent [1]) \<and> writable Absent
   \<and> scan_step env0 (args0\<lparr>mark_new := True\<rparr>) (known_of []) ''a'' skip_world
       = (Inl NotADirectoryError,
          skip_world\<lparr>work := (work skip_world)(''a'' \<mapsto> Dir (Content ''2024-05-01 10:00:0 w/a'') [1]),
            ticks := 1,
            trace := [Wrote (Work ''a'') ''2024-05-01 10:00:0 w/a'']\<rparr>)"
proof -
  have a: "archive skip_world ''a'' = Some Other"
    and b: "read_dir_id skip_world (Work ''a'') = Inr None" "\<not> mark_new args0"
      "work skip_world ''a'' = Some (Dir Absent [1])" "writable Absent"
      "ticks skip_world = 0" "trace skip_world = []"
    by (simp_all add: skip_world_def world_of_def read_dir_id_def isfile_awid_def args0_def)
  have c: "archive conflict_world ''c'' = Some Other"
    and d: "read_dir_id conflict_world (Work ''c'') = Inr (Some ''C1'')" "known_of [] ''C1'' = None"
    by (simp_all add: conflict_world_def world_of_def read_dir_id_def isfile_awid_def
          strip_def isspace_def known_of_def)
  have g: "mark_new (args0\<lparr>mark_new := True, dry_run := True\<rparr>)"
    "dry_run (args0\<lparr>mark_new := True, dry_run := True\<rparr>)"
    "mark_new (args0\<lparr>mark_new := True\<rparr>)" "\<not> dry_run (args0\<lparr>mark_new := True\<rparr>)"
    by (simp_all add: args0_def)
  have f: "fresh_id env0 (args0\<lparr>mark_new := True\<rparr>) (Work ''a'') skip_world
      = ''2024-05-01 10:00:0 w/a''"
    by (simp add: fresh_id_def env0_def args0_def clock_def skip_world_def world_of_def)
  from conflict_checks_test_existence [OF a, where a = args0 and env = env0
      and known = "known_of []" and i = "''C1''"] b
  have 1: "scan_step env0 args0 (known_of []) ''a'' skip_world
       = (Inr (NEW_CONFLICT_SKIP, None), skip_world)"
    by simp
  from conflict_checks_test_existence [OF c, where a = args0 and env = env0
      and known = "known_of []" and i = "''C1''"] d
  have 2: "scan_step env0 args0 (known_of []) ''c'' conflict_world
       = (Inr (CONFLICT_SKIP, None), conflict_world)"
    by simp
  from conflict_checks_test_existence [OF a,
      where a = "args0\<lparr>mark_new := True, dry_run := True\<rparr>" and env = env0
      and known = "known_of []"] b g
  have 3: "scan_step env0 (args0\<lparr>mark_new := True, dry_run := True\<rparr>) (known_of []) ''a''
        skip_world
       = (Inr (NEW_CONFLICT_OVERWRITE, Some ''a''), skip_world\<lparr>ticks := 1\<rparr>)"
    by simp
  from conflict_checks_test_existence [OF a, where a = "args0\<lparr>mark_new := True\<rparr>"
      and env = env0 and known = "known_of []" and s = Absent and c = "[1]"] b g f
  have 4: "scan_step env0 (args0\<lparr>mark_new := True\<rparr>) (known_of []) ''a'' skip_world
       = (Inl NotADirectoryError,
          skip_world\<lparr>work := (work skip_world)(''a'' \<mapsto> Dir (Content ''2024-05-01 10:00:0 w/a'') [1]),
            ticks := 1,
            trace := [Wrote (Work ''a'') ''2024-05-01 10:00:0 w/a'']\<rparr>)"
    by simp
  from a b(1-4) c d g 1 2 3 4 show ?thesis by simp
qed

text \<open>C10, counterexample to the claim as stated: with \<^verbatim>\<open>--mark-new\<close>, the unmarked
  work subdirectory \<^verbatim>\<open>a\<close> beside a regular file \<^verbatim>\<open>a\<close> of the archive gets no
  classification: the run ends with \<^verbatim>\<open>NotADirectoryError\<close> and leaves \<^verbatim>\<open>a\<close>
  marked; beside an archive directory of the same name the unmarked \<^verbatim>\<open>d\<close> is
  classified \<open>NEW_CONFLICT_OVERWRITE\<close> and the run completes.\<close>

theorem mark_new_conflict_with_file_raises:
  "fst (main env0 (args0\<lparr>mark_new := True\<rparr>) [''a'', ''b''] [''a'', ''b''] skip_world)
     = Inl NotADirectoryError
   \<and> work (snd (main env0 (args0\<lparr>mark_new := True\<rparr>) [''a'', ''b''] [''a'', ''b''] skip_world)) ''a''
     = Some (Dir (Content ''2024-05-01 10:00:0 w/a'') [1])
   \<and> fst (main env0 (args0\<lparr>mark_new := True\<rparr>) [''d''] [''d''] overwrite_world)
     = Inr (Some 0,
        \<lparr>logged = [(''d'', NEW_CONFLICT_OVERWRITE)], rsync_todo = [(''d'', ''d'')],
         skipped = []\<rparr>)"
  by (simp add: main_def mark_requested_def args0_def env0_def skip_world_def overwrite_world_def
        world_of_def known_archive_dirs_def is_dir_def read_dir_id_def isfile_awid_def
        strip_def isspace_def scan_step_def path_exists_def mark_dir_def fresh_id_def clock_def
        write_id_def record_decision_def no_result_def rsync_dir_def rsync_command_def
        RSYNC_FLAGS_def copy_mirror_def Let_def)




subsection \<open>The events of a run\<close>

lemma write_id_trace:
  "write_id p i w = (x, w') \<Longrightarrow> \<exists>evs. trace w' = trace w @ evs \<and> list_all is_wrote evs"
  by (cases p) (auto simp: write_id_def split: sum.splits)

lemma mark_paths_trace:
  "mark_paths a i ps w = (x, w') \<Longrightarrow> \<exists>evs. trace w' = trace w @ evs \<and> list_all is_wrote evs"
proof (induction ps arbitrary: w)
  case Nil
  then show ?case by simp
next
  case (Cons q ps)
  show ?case
  proof (cases "dry_run a")
    case True
    with Cons show ?thesis by simp
  next
    case False
    obtain y w1 where s: "write_id q i w = (y, w1)" by (cases "write_id q i w")
    from write_id_trace [OF s] obtain e1 where e1: "trace w1 = trace w @ e1" "list_all is_wrote e1"
      by blast
    show ?thesis
    proof (cases y)
      case (Inl e)
      with s False Cons.prems have "w' = w1" by simp
      with e1 show ?thesis by blast
    next
      case (Inr u)
      with s False Cons.prems have "mark_paths a i ps w1 = (x, w')" by simp
      from Cons.IH [OF this] obtain e2 where "trace w' = trace w1 @ e2" "list_all is_wrote e2"
        by blast
      with e1 have "trace w' = trace w @ (e1 @ e2)" "list_all is_wrote (e1 @ e2)" by simp_all
      then show ?thesis by blast
    qed
  qed
qed

lemma mark_dir_trace:
  assumes "mark_dir env a p1 p2 w = (x, w')"
  shows "\<exists>evs. trace w' = trace w @ evs \<and> list_all is_wrote evs"
proof -
  let ?ps = "p1 # (case p2 of None \<Rightarrow> [] | Some q \<Rightarrow> [q])"
  obtain y w1 where
    s: "mark_paths a (fresh_id env a p1 w) ?ps (w\<lparr>ticks := Suc (ticks w)\<rparr>) = (y, w1)"
    by (cases "mark_paths a (fresh_id env a p1 w) ?ps (w\<lparr>ticks := Suc (ticks w)\<rparr>)")
  from assms s have "w' = w1" by (auto simp: mark_dir_def Let_def split: sum.splits)
  with mark_paths_trace [OF s] show ?thesis by simp
qed

lemma os_rename_trace:
  "os_rename s d w = (x, w') \<Longrightarrow> \<exists>evs. trace w' = trace w @ evs \<and> list_all is_renamed evs"
  by (auto simp: os_rename_def moved_def split: option.splits entry.splits if_splits)

lemma scan_step_trace:
  assumes "scan_step env a known n w = (x, w')"
  shows "\<exists>evs. trace w' = trace w @ evs \<and> list_all (\<lambda>e. is_wrote e \<or> is_renamed e) evs"
proof -
  have m: "\<exists>evs. trace w' = trace w @ evs \<and> list_all (\<lambda>e. is_wrote e \<or> is_renamed e) evs"
    if "mark_dir env a p1 p2 w = (y, w')" for p1 p2 y
    using mark_dir_trace [OF that] by (auto simp: list_all_iff)
  have r: "\<exists>evs. trace w' = trace w @ evs \<and> list_all (\<lambda>e. is_wrote e \<or> is_renamed e) evs"
    if "os_rename s d w = (y, w')" for s d y
    using os_rename_trace [OF that] by (auto simp: list_all_iff)
  have z: "\<exists>evs. trace w = trace w @ evs \<and> list_all (\<lambda>e. is_wrote e \<or> is_renamed e) evs"
    by (rule exI [of _ "[]"]) simp
  from assms show ?thesis
    unfolding scan_step_def
    by (auto split: sum.splits option.splits if_splits prod.splits intro: m r z)
qed

lemma scan_trace:
  "scan env a known ns w r = (x, w') \<Longrightarrow>
   \<exists>evs. trace w' = trace w @ evs \<and> list_all (\<lambda>e. is_wrote e \<or> is_renamed e) evs"
proof (induction ns arbitrary: w r)
  case Nil
  then show ?case by simp
next
  case (Cons n ns)
  obtain y w1 where s: "scan_step env a known n w = (y, w1)"
    by (cases "scan_step env a known n w")
  from scan_step_trace [OF s] obtain e1 where
    e1: "trace w1 = trace w @ e1" "list_all (\<lambda>e. is_wrote e \<or> is_renamed e) e1"
    by blast
  show ?case
  proof (cases y)
    case (Inl e)
    with s Cons.prems have "w' = w1" by simp
    with e1 show ?thesis by blast
  next
    case (Inr d)
    with s Cons.prems have "scan env a known ns w1 (record_decision n d r) = (x, w')" by simp
    from Cons.IH [OF this] obtain e2 where
      "trace w' = trace w1 @ e2" "list_all (\<lambda>e. is_wrote e \<or> is_renamed e) e2"
      by blast
    with e1 have "trace w' = trace w @ (e1 @ e2)"
      "list_all (\<lambda>e. is_wrote e \<or> is_renamed e) (e1 @ e2)" by simp_all
    then show ?thesis by blast
  qed
qed

lemma attempt_renames_trace:
  "attempt_renames env a wn an w = (x, w') \<Longrightarrow>
   \<exists>evs. trace w' = trace w @ evs \<and> list_all is_prepass evs"
  by (auto simp: attempt_renames_def split: option.splits entry.splits prod.splits)

lemma run_rsync_trace:
  "run_rsync env a todo w = (x, w') \<Longrightarrow>
   \<exists>evs. trace w' = trace w @ evs \<and> list_all (\<lambda>e. is_prepass e \<or> is_ran e) evs"
proof (induction todo arbitrary: w)
  case Nil
  then show ?case by simp
next
  case (Cons p todo)
  obtain wn an where p: "p = (wn, an)" by (cases p)
  let ?pre = "if rename a then attempt_renames env a wn an w else (Inr (), w)"
  obtain y w1 where s: "?pre = (y, w1)" by (cases ?pre)
  have "\<exists>evs. trace w1 = trace w @ evs \<and> list_all is_prepass evs"
  proof (cases "rename a")
    case True
    with s attempt_renames_trace [of env a wn an w y w1] show ?thesis by simp
  next
    case False
    with s show ?thesis by simp
  qed
  then obtain e1 where e1: "trace w1 = trace w @ e1" "list_all is_prepass e1" by blast
  show ?case
  proof (cases y)
    case (Inl e)
    with s p Cons.prems have "w' = w1" by simp
    with e1 have "trace w' = trace w @ e1" "list_all (\<lambda>e. is_prepass e \<or> is_ran e) e1"
      by (simp_all add: list_all_iff)
    then show ?thesis by blast
  next
    case (Inr u)
    let ?w2 = "if test_no_rsync a then w1 else rsync_dir env a wn an w1"
    from Inr s p Cons.prems have "run_rsync env a todo ?w2 = (x, w')"
      by (simp split: if_splits)
    from Cons.IH [OF this] obtain e2 where
      e2: "trace w' = trace ?w2 @ e2" "list_all (\<lambda>e. is_prepass e \<or> is_ran e) e2"
      by blast
    obtain e0 where e0: "trace ?w2 = trace w1 @ e0" "list_all (\<lambda>e. is_prepass e \<or> is_ran e) e0"
      by (cases "test_no_rsync a") (simp_all add: rsync_dir_def Let_def)
    from e0 e1 e2 have "trace w' = trace w @ (e1 @ e0 @ e2)"
      "list_all (\<lambda>e. is_prepass e \<or> is_ran e) (e1 @ e0 @ e2)"
      by (auto simp: list_all_iff)
    then show ?thesis by blast
  qed
qed

lemma main_unfold:
  assumes "\<not> mark_requested a"
  shows "main env a wl al w =
    (case known_archive_dirs (w\<lparr>trace := trace w @ [Listed_archive]\<rparr>) al of
       Inl e \<Rightarrow> (Inl e, w\<lparr>trace := trace w @ [Listed_archive]\<rparr>)
     | Inr known \<Rightarrow>
         (case scan env a known (sort (filter (\<lambda>n. is_dir w (Work n)) wl))
                 (w\<lparr>trace := trace w @ [Listed_archive, Listed_work]\<rparr>) no_result of
            (Inl e, w') \<Rightarrow> (Inl e, w')
          | (Inr r, w') \<Rightarrow>
              (case run_rsync env a (rsync_todo r) w' of
                 (Inl e, w'') \<Rightarrow> (Inl e, w'')
               | (Inr u, w'') \<Rightarrow>
                   (if skipped r \<noteq> [] \<and> report_skipped a then (Inr (Some 1, r), w'')
                    else (Inr (Some 0, r), w'')))))"
  using assms
  by (cases "known_archive_dirs (w\<lparr>trace := trace w @ [Listed_archive]\<rparr>) al")
    (simp_all add: main_def Let_def is_dir_def)

lemma read_dir_id_trace [simp]: "read_dir_id (w\<lparr>trace := t\<rparr>) p = read_dir_id w p"
  by (simp add: read_dir_id_def isfile_awid_def)

lemma is_dir_trace [simp]: "is_dir (w\<lparr>trace := t\<rparr>) p = is_dir w p"
  by (simp add: is_dir_def)

lemma collect_known_trace [simp]:
  "collect_known (w\<lparr>trace := t\<rparr>) ns known = collect_known w ns known"
  by (induction ns arbitrary: known) (simp_all split: sum.splits option.splits)

lemma known_archive_dirs_trace [simp]:
  "known_archive_dirs (w\<lparr>trace := t\<rparr>) al = known_archive_dirs w al"
  by (simp add: known_archive_dirs_def)

lemma renames_first_append:
  assumes "list_all (\<lambda>e. \<not> is_ran e) es" and "list_all (\<lambda>e. \<not> is_renamed e) rs"
  shows "renames_first (es @ rs)"
proof -
  from assms(1) have "dropWhile (\<lambda>e. \<not> is_ran e) (es @ rs) = dropWhile (\<lambda>e. \<not> is_ran e) rs"
    by (intro dropWhile_append2) (simp add: list_all_iff)
  moreover have "set (dropWhile (\<lambda>e. \<not> is_ran e) rs) \<subseteq> set rs"
    by (auto dest: set_dropWhileD)
  ultimately show ?thesis using assms(2) by (auto simp: renames_first_def list_all_iff)
qed

lemma wrote_or_renamed_not_ran:
  "list_all (\<lambda>e. is_wrote e \<or> is_renamed e) evs \<Longrightarrow> list_all (\<lambda>e. \<not> is_ran e) evs"
proof -
  have "\<not> is_ran e" if "is_wrote e \<or> is_renamed e" for e
    using that by (cases e) auto
  then show "list_all (\<lambda>e. is_wrote e \<or> is_renamed e) evs \<Longrightarrow> list_all (\<lambda>e. \<not> is_ran e) evs"
    by (auto simp: list_all_iff)
qed

lemma prepass_or_ran_not_renamed:
  "list_all (\<lambda>e. is_prepass e \<or> is_ran e) evs \<Longrightarrow> list_all (\<lambda>e. \<not> is_renamed e) evs"
proof -
  have "\<not> is_renamed e" if "is_prepass e \<or> is_ran e" for e
    using that by (cases e) auto
  then show "list_all (\<lambda>e. is_prepass e \<or> is_ran e) evs \<Longrightarrow> list_all (\<lambda>e. \<not> is_renamed e) evs"
    by (auto simp: list_all_iff)
qed

lemma main_renames_first:
  assumes "main env a wl al w = (x, w')"
  shows "\<exists>evs. trace w' = trace w @ evs \<and> renames_first evs"
proof (cases "mark_requested a")
  case True
  then obtain m where m: "mark a = Some m"
    by (auto simp: mark_requested_def split: option.splits)
  obtain y w1 where d: "mark_dir env a (Work m) (Some (Archive m)) w = (y, w1)"
    by (cases "mark_dir env a (Work m) (Some (Archive m)) w")
  from assms True m d have "w' = w1"
    by (cases y) (simp_all add: main_def)
  with mark_dir_trace [OF d] obtain evs where e: "trace w' = trace w @ evs" "list_all is_wrote evs"
    by blast
  from e(2) have "list_all (\<lambda>e. \<not> is_ran e) evs"
    by (intro wrote_or_renamed_not_ran) (simp add: list_all_iff)
  from renames_first_append [OF this, of "[]"] e(1) show ?thesis by auto
next
  case False
  let ?w1 = "w\<lparr>trace := trace w @ [Listed_archive]\<rparr>"
  let ?w2 = "w\<lparr>trace := trace w @ [Listed_archive, Listed_work]\<rparr>"
  let ?ns = "sort (filter (\<lambda>n. is_dir w (Work n)) wl)"
  note m = main_unfold [OF False, of env wl al w]
  show ?thesis
  proof (cases "known_archive_dirs ?w1 al")
    case (Inl e)
    with assms m have "trace w' = trace w @ [Listed_archive]" by auto
    moreover have "renames_first [Listed_archive]" by (simp add: renames_first_def)
    ultimately show ?thesis by blast
  next
    case (Inr known)
    obtain y w2 where s: "scan env a known ?ns ?w2 no_result = (y, w2)"
      by (cases "scan env a known ?ns ?w2 no_result")
    from scan_trace [OF s] obtain es where
      es: "trace w2 = trace w @ ([Listed_archive, Listed_work] @ es)"
        "list_all (\<lambda>e. is_wrote e \<or> is_renamed e) es"
      by auto
    from wrote_or_renamed_not_ran [OF es(2)]
    have nr: "list_all (\<lambda>e. \<not> is_ran e) ([Listed_archive, Listed_work] @ es)" by simp
    show ?thesis
    proof (cases y)
      case (Inl e)
      with assms m Inr s have "w' = w2" by simp
      with es(1) renames_first_append [OF nr, of "[]"] show ?thesis by auto
    next
      case r: (Inr r)
      obtain z w3 where t: "run_rsync env a (rsync_todo r) w2 = (z, w3)"
        by (cases "run_rsync env a (rsync_todo r) w2")
      from assms m Inr s r t have "w' = w3"
        by (cases z) (simp_all split: if_splits)
      moreover from run_rsync_trace [OF t] obtain rs where
        rs: "trace w3 = trace w2 @ rs" "list_all (\<lambda>e. is_prepass e \<or> is_ran e) rs"
        by blast
      ultimately have "trace w' = trace w @ (([Listed_archive, Listed_work] @ es) @ rs)"
        using es(1) by simp
      moreover from renames_first_append [OF nr prepass_or_ran_not_renamed [OF rs(2)]]
      have "renames_first (([Listed_archive, Listed_work] @ es) @ rs)" .
      ultimately show ?thesis by blast
    qed
  qed
qed

lemma record_decision_mono:
  "set (logged r) \<subseteq> set (logged (record_decision n d r))
   \<and> set (rsync_todo r) \<subseteq> set (rsync_todo (record_decision n d r))
   \<and> set (skipped r) \<subseteq> set (skipped (record_decision n d r))"
  by (cases "snd d") (auto simp: record_decision_def)

lemma scan_mono:
  "scan env a known ns w r = (Inr r', w') \<Longrightarrow>
   set (logged r) \<subseteq> set (logged r') \<and> set (rsync_todo r) \<subseteq> set (rsync_todo r')
   \<and> set (skipped r) \<subseteq> set (skipped r') \<and> set (trace w) \<subseteq> set (trace w')"
proof (induction ns arbitrary: w r)
  case Nil
  then show ?case by simp
next
  case (Cons n ns)
  obtain x w1 where s: "scan_step env a known n w = (x, w1)"
    by (cases "scan_step env a known n w")
  with Cons.prems obtain d where d: "x = Inr d"
    and rest: "scan env a known ns w1 (record_decision n d r) = (Inr r', w')"
    by (cases x) auto
  from scan_step_trace [OF s] have "set (trace w) \<subseteq> set (trace w1)" by auto
  with Cons.IH [OF rest] record_decision_mono [of r n d] show ?case by blast
qed

lemma scan_reaches:
  assumes "scan env a known ns w r = (Inr r', w')" and "n \<in> set ns"
  shows "\<exists>w1 w2 d. work w1 n = work w n \<and> scan_step env a known n w1 = (Inr d, w2)
     \<and> (n, fst d) \<in> set (logged r')
     \<and> (case snd d of Some t \<Rightarrow> (n, t) \<in> set (rsync_todo r')
         | None \<Rightarrow> (n, fst d) \<in> set (skipped r'))
     \<and> set (trace w2) \<subseteq> set (trace w')"
  using assms
proof (induction ns arbitrary: w r)
  case Nil
  then show ?case by simp
next
  case (Cons m ns)
  obtain x w1 where s: "scan_step env a known m w = (x, w1)"
    by (cases "scan_step env a known m w")
  with Cons.prems(1) obtain d where d: "x = Inr d"
    and rest: "scan env a known ns w1 (record_decision m d r) = (Inr r', w')"
    by (cases x) auto
  show ?case
  proof (cases "m = n")
    case True
    have "(n, fst d) \<in> set (logged (record_decision n d r))"
      "case snd d of Some t \<Rightarrow> (n, t) \<in> set (rsync_todo (record_decision n d r))
         | None \<Rightarrow> (n, fst d) \<in> set (skipped (record_decision n d r))"
      by (cases "snd d"; simp add: record_decision_def)+
    with scan_mono [OF rest] True
    have "(n, fst d) \<in> set (logged r')"
      "case snd d of Some t \<Rightarrow> (n, t) \<in> set (rsync_todo r')
         | None \<Rightarrow> (n, fst d) \<in> set (skipped r')"
      "set (trace w1) \<subseteq> set (trace w')"
      by (auto split: option.splits)
    with s d True show ?thesis by blast
  next
    case False
    with Cons.prems(2) have "n \<in> set ns" by simp
    from Cons.IH [OF rest this] obtain v1 v2 d' where
      "work v1 n = work w1 n" "scan_step env a known n v1 = (Inr d', v2)"
      "(n, fst d') \<in> set (logged r')"
      "case snd d' of Some t \<Rightarrow> (n, t) \<in> set (rsync_todo r')
         | None \<Rightarrow> (n, fst d') \<in> set (skipped r')"
      "set (trace v2) \<subseteq> set (trace w')"
      by blast
    moreover from scan_step_work [OF s] False have "work w1 n = work w n" by auto
    ultimately show ?thesis by (metis (no_types, lifting))
  qed
qed

lemma read_Some_is_dir: "read_dir_id w p = Inr (Some i) \<Longrightarrow> is_dir w p"
  by (auto simp: read_dir_id_cases is_dir_def split: option.splits entry.splits sentinel.splits)

lemma renamed_step_eq:
  assumes "read_dir_id w (Work n) = Inr (Some i)" and "known i = Some b" and "b \<noteq> n"
    and "\<not> dry_run a"
  shows "scan_step env a known n w =
           (case os_rename b n w of
              (Inl e, w') \<Rightarrow> (Inl e, w')
            | (Inr u, w') \<Rightarrow> (Inr (RENAMED b, Some n), w'))"
  using assms by (simp add: scan_step_def)

lemma os_rename_Renamed:
  "os_rename s d w = (Inr u, w') \<Longrightarrow> Renamed s d \<in> set (trace w')"
  by (auto simp: os_rename_def moved_def split: option.splits entry.splits if_splits)

subsection \<open>A renamed work subdirectory\<close>

text \<open>C2. Let the work subdirectory \<open>n\<close> carry the identity \<open>i\<close>, and let the index of
  the archive map \<open>i\<close> to an archive subdirectory \<open>b\<close> of another name. In a run that is
  not a dry run:
  \<^item> the scan calls \<^verbatim>\<open>os.rename\<close> from \<open>b\<close> to \<open>n\<close> in the archive root; when the call
    succeeds \<open>n\<close> is classified \<open>RENAMED\<close> and the renamed path is its sync target; when
    it fails its error ends the scan, and with it the run;
  \<^item> so in a run that completes, \<open>n\<close> is logged as \<open>RENAMED\<close>, it is in the sync plan with
    the renamed path as target (it is not skipped), and the rename was made;
  \<^item> in every run, no rename is made once the mirror has been run for the first time.\<close>

theorem rename_propagation:
  "(read_dir_id w (Work n) = Inr (Some i) \<and> known i = Some b \<and> b \<noteq> n \<and> \<not> dry_run a \<longrightarrow>
      scan_step env a known n w =
        (case os_rename b n w of
           (Inl e, w1) \<Rightarrow> (Inl e, w1)
         | (Inr u, w1) \<Rightarrow> (Inr (RENAMED b, Some n), w1))
      \<and> (\<forall>e w1. os_rename b n w = (Inl e, w1) \<longrightarrow>
            scan env a known (n # ns) w r = (Inl e, w1)))
   \<and> (main env a wl al w0 = (Inr (rc, r'), w') \<and> \<not> mark_requested a \<and> n \<in> set wl
      \<and> read_dir_id w0 (Work n) = Inr (Some i)
      \<and> known_archive_dirs w0 al = Inr known \<and> known i = Some b \<and> b \<noteq> n \<and> \<not> dry_run a \<longrightarrow>
      (n, RENAMED b) \<in> set (logged r') \<and> (n, n) \<in> set (rsync_todo r')
      \<and> Renamed b n \<in> set (trace w'))
   \<and> (main env a wl al w0 = (x, w') \<longrightarrow>
        (\<exists>evs. trace w' = trace w0 @ evs \<and> renames_first evs))"
proof (intro conjI impI)
  assume h: "read_dir_id w (Work n) = Inr (Some i) \<and> known i = Some b \<and> b \<noteq> n \<and> \<not> dry_run a"
  then show eq: "scan_step env a known n w =
        (case os_rename b n w of
           (Inl e, w1) \<Rightarrow> (Inl e, w1)
         | (Inr u, w1) \<Rightarrow> (Inr (RENAMED b, Some n), w1))"
    using renamed_step_eq by blast
  show "\<forall>e w1. os_rename b n w = (Inl e, w1) \<longrightarrow> scan env a known (n # ns) w r = (Inl e, w1)"
    by (simp add: eq)
next
  assume h: "main env a wl al w0 = (Inr (rc, r'), w') \<and> \<not> mark_requested a \<and> n \<in> set wl
      \<and> read_dir_id w0 (Work n) = Inr (Some i)
      \<and> known_archive_dirs w0 al = Inr known \<and> known i = Some b \<and> b \<noteq> n \<and> \<not> dry_run a"
  let ?w2 = "w0\<lparr>trace := trace w0 @ [Listed_archive, Listed_work]\<rparr>"
  let ?ns = "sort (filter (\<lambda>n. is_dir w0 (Work n)) wl)"
  from h main_scan [of a env wl al w0 rc r' w'] obtain v where
    sc: "scan env a known ?ns ?w2 no_result = (Inr r', v)"
    and rs: "run_rsync env a (rsync_todo r') v = (Inr (), w')"
    by auto
  from h read_Some_is_dir have "n \<in> set ?ns" by auto
  from scan_reaches [OF sc this] obtain w1 w2 d where
    1: "work w1 n = work ?w2 n" "scan_step env a known n w1 = (Inr d, w2)"
      "(n, fst d) \<in> set (logged r')"
      "case snd d of Some t \<Rightarrow> (n, t) \<in> set (rsync_todo r')
         | None \<Rightarrow> (n, fst d) \<in> set (skipped r')"
      "set (trace w2) \<subseteq> set (trace v)"
    by blast
  from 1(1) h have rd: "read_dir_id w1 (Work n) = Inr (Some i)"
    by (simp add: read_dir_id_cases)
  obtain y w3 where o: "os_rename b n w1 = (y, w3)" by (cases "os_rename b n w1")
  from renamed_step_eq [OF rd, of known b a env] h 1(2) o
  have y: "y = Inr ()" and d: "d = (RENAMED b, Some n)" and w3: "w3 = w2"
    by (cases y; simp)+
  from os_rename_Renamed [OF o [unfolded y]] w3 1(5) have "Renamed b n \<in> set (trace v)"
    by auto
  moreover from run_rsync_trace [OF rs] have "set (trace v) \<subseteq> set (trace w')" by auto
  ultimately have "Renamed b n \<in> set (trace w')" by auto
  with 1(3,4) d
  show "(n, RENAMED b) \<in> set (logged r')" "(n, n) \<in> set (rsync_todo r')"
    "Renamed b n \<in> set (trace w')"
    by simp_all
next
  assume "main env a wl al w0 = (x, w')"
  then show "\<exists>evs. trace w' = trace w0 @ evs \<and> renames_first evs"
    by (rule main_renames_first)
qed

text \<open>C2, witness: the work subdirectory \<^verbatim>\<open>a\<close> and the archive subdirectory \<^verbatim>\<open>b\<close>
  share the identity \<^verbatim>\<open>X\<close>. The archive subdirectory is renamed and the run completes;
  when the archive already has a directory \<^verbatim>\<open>a\<close> that is not empty, the rename fails
  and the scan ends with its error.\<close>

theorem rename_propagation_witness:
  "scan_step env0 args0 (known_of [(''X'', ''b'')]) ''a'' rename_world =
     (Inr (RENAMED ''b'', Some ''a''),
      rename_world\<lparr>archive := (archive rename_world)(''b'' := None, ''a'' \<mapsto> Dir (Content ''X'') [2]),
        trace := [Renamed ''b'' ''a'']\<rparr>)
   \<and> scan env0 args0 (known_of [(''X'', ''b'')]) [''a''] taken_world no_result
       = (Inl DirectoryNotEmpty, taken_world)
   \<and> fst (main env0 args0 [''a''] [''b''] rename_world) =
       Inr (Some 0, \<lparr>logged = [(''a'', RENAMED ''b'')], rsync_todo = [(''a'', ''a'')], skipped = []\<rparr>)
   \<and> Renamed ''b'' ''a'' \<in> set (trace (snd (main env0 args0 [''a''] [''b''] rename_world)))
   \<and> renames_first (trace (snd (main env0 args0 [''a''] [''b''] rename_world)))"
proof -
  let ?known = "known_of [(''X'', ''b'')]"
  let ?r = "\<lparr>logged = [(''a'', RENAMED ''b'')], rsync_todo = [(''a'', ''a'')], skipped = []\<rparr>"
  have h: "read_dir_id rename_world (Work ''a'') = Inr (Some ''X'')" "?known ''X'' = Some ''b''"
    "''b'' \<noteq> ''a''" "\<not> dry_run args0" "\<not> mark_requested args0"
    "known_archive_dirs rename_world [''b''] = Inr ?known"
    by (simp_all add: rename_world_def world_of_def read_dir_id_def isfile_awid_def strip_def
          isspace_def known_of_def args0_def mark_requested_def known_archive_dirs_def is_dir_def)
  have t: "read_dir_id taken_world (Work ''a'') = Inr (Some ''X'')"
    by (simp add: taken_world_def world_of_def read_dir_id_def isfile_awid_def strip_def
          isspace_def)
  have o1: "os_rename ''b'' ''a'' rename_world =
     (Inr (),
      rename_world\<lparr>archive := (archive rename_world)(''b'' := None, ''a'' \<mapsto> Dir (Content ''X'') [2]),
        trace := [Renamed ''b'' ''a'']\<rparr>)"
    by (simp add: os_rename_def moved_def rename_world_def world_of_def)
  have o2: "os_rename ''b'' ''a'' taken_world = (Inl DirectoryNotEmpty, taken_world)"
    by (simp add: os_rename_def taken_world_def world_of_def)
  obtain x w' where run: "main env0 args0 [''a''] [''b''] rename_world = (x, w')"
    by (cases "main env0 args0 [''a''] [''b''] rename_world")
  have "fst (main env0 args0 [''a''] [''b''] rename_world) = Inr (Some 0, ?r)"
    by (simp add: main_def mark_requested_def args0_def known_archive_dirs_def is_dir_def
          scan_step_def rename_world_def world_of_def read_dir_id_def isfile_awid_def strip_def
          isspace_def no_result_def record_decision_def env0_def rsync_dir_def os_rename_def
          moved_def rsync_command_def RSYNC_FLAGS_def copy_mirror_def Let_def)
  with run have x: "x = Inr (Some 0, ?r)" by simp
  have e: "trace rename_world = []"
    by (simp add: rename_world_def world_of_def)
  note thm1 = rename_propagation [where w = rename_world and n = "''a''" and i = "''X''"
      and known = ?known and b = "''b''" and a = args0 and env = env0 and ns = "[]"
      and r = no_result and wl = "[''a'']" and al = "[''b'']" and ?w0.0 = rename_world
      and rc = "Some 0" and r' = ?r and w' = w' and x = x]
  note thm2 = rename_propagation [where w = taken_world and n = "''a''" and i = "''X''"
      and known = ?known and b = "''b''" and a = args0 and env = env0 and ns = "[]"
      and r = no_result]
  from thm1 h o1 have 1: "scan_step env0 args0 ?known ''a'' rename_world =
     (Inr (RENAMED ''b'', Some ''a''),
      rename_world\<lparr>archive := (archive rename_world)(''b'' := None, ''a'' \<mapsto> Dir (Content ''X'') [2]),
        trace := [Renamed ''b'' ''a'']\<rparr>)"
    by simp
  from thm2 t h(2,3,4) o2
  have 2: "scan env0 args0 ?known [''a''] taken_world no_result = (Inl DirectoryNotEmpty, taken_world)"
    by blast
  from thm1 h run [unfolded x]
  have 3: "Renamed ''b'' ''a'' \<in> set (trace w')"
    by simp
  from thm1 run e have 4: "renames_first (trace w')"
    by auto
  from 1 2 3 4 run x show ?thesis by simp
qed

subsection \<open>Marking a single directory\<close>




subsection \<open>Dry runs\<close>

lemma scan_step_dry:
  assumes "dry_run a" and "scan_step env a known n w = (x, w')"
  shows "work w' = work w \<and> archive w' = archive w \<and> trace w' = trace w"
  using assms
  by (auto simp: scan_step_def mark_dir_dry split: sum.splits option.splits if_splits)

lemma scan_dry:
  "dry_run a \<Longrightarrow> scan env a known ns w r = (x, w') \<Longrightarrow>
   work w' = work w \<and> archive w' = archive w \<and> trace w' = trace w"
proof (induction ns arbitrary: w r)
  case Nil
  then show ?case by simp
next
  case (Cons n ns)
  obtain y w1 where s: "scan_step env a known n w = (y, w1)"
    by (cases "scan_step env a known n w")
  note f = scan_step_dry [OF Cons.prems(1) s]
  show ?case
  proof (cases y)
    case (Inl e)
    with s Cons.prems f show ?thesis by simp
  next
    case (Inr d)
    with s Cons.prems(2) have "scan env a known ns w1 (record_decision n d r) = (x, w')" by simp
    from Cons.IH [OF Cons.prems(1) this] f show ?thesis by simp
  qed
qed

lemma attempt_renames_dry:
  assumes "dry_run a" and "attempt_renames env a wn an w = (x, w')"
  shows "work w' = work w \<and> archive w' = archive w
       \<and> (\<exists>evs. trace w' = trace w @ evs \<and> list_all is_dry_event evs)"
proof -
  have z: "\<exists>evs. trace w = trace w @ evs \<and> list_all is_dry_event evs"
    by (rule exI [of _ "[]"]) simp
  have f: "(archive w)(an \<mapsto> e) = archive w" if "archive w an = Some e" for e
    using that by (simp add: fun_upd_idem)
  from assms z f show ?thesis
    by (auto simp: attempt_renames_def split: option.splits entry.splits prod.splits)
qed

lemma rsync_dir_dry:
  assumes "dry_run a" and "honours_dry_run env"
  shows "archive (rsync_dir env a wn an w) = archive w"
proof -
  from assms(1) have "''--dry-run'' \<in> set (rsync_command a wn an)"
    by (simp add: rsync_command_def)
  with assms(2) have "mirror env (rsync_command a wn an) (work w wn) (archive w an) = archive w an"
    by (simp add: honours_dry_run_def)
  then show ?thesis by (simp add: rsync_dir_def Let_def)
qed

lemma rsync_dir_dry_trace:
  assumes "dry_run a"
  shows "work (rsync_dir env a wn an w) = work w
       \<and> (\<exists>evs. trace (rsync_dir env a wn an w) = trace w @ evs \<and> list_all is_dry_event evs)"
  using assms by (simp add: rsync_dir_def Let_def rsync_command_def)

lemma run_rsync_dry:
  "dry_run a \<Longrightarrow> run_rsync env a todo w = (x, w') \<Longrightarrow>
   work w' = work w \<and> (honours_dry_run env \<longrightarrow> archive w' = archive w)
   \<and> (\<exists>evs. trace w' = trace w @ evs \<and> list_all is_dry_event evs)"
proof (induction todo arbitrary: w)
  case Nil
  then show ?case by simp
next
  case (Cons p todo)
  obtain wn an where p: "p = (wn, an)" by (cases p)
  let ?pre = "if rename a then attempt_renames env a wn an w else (Inr (), w)"
  obtain y w1 where s: "?pre = (y, w1)" by (cases ?pre)
  have "work w1 = work w \<and> archive w1 = archive w
       \<and> (\<exists>evs. trace w1 = trace w @ evs \<and> list_all is_dry_event evs)"
  proof (cases "rename a")
    case True
    with s attempt_renames_dry [OF Cons.prems(1), of env wn an w y w1] show ?thesis by simp
  next
    case False
    with s show ?thesis by simp
  qed
  then obtain e1 where e1: "work w1 = work w" "archive w1 = archive w"
    "trace w1 = trace w @ e1" "list_all is_dry_event e1" by blast
  show ?case
  proof (cases y)
    case (Inl e)
    with s p Cons.prems have "w' = w1" by simp
    with e1 show ?thesis by blast
  next
    case (Inr u)
    let ?w2 = "if test_no_rsync a then w1 else rsync_dir env a wn an w1"
    from Inr s p Cons.prems have "run_rsync env a todo ?w2 = (x, w')"
      by (simp split: if_splits)
    from Cons.IH [OF Cons.prems(1) this] obtain e2 where
      e2: "work w' = work ?w2" "honours_dry_run env \<longrightarrow> archive w' = archive ?w2"
        "trace w' = trace ?w2 @ e2" "list_all is_dry_event e2"
      by blast
    obtain e0 where e0: "work ?w2 = work w1" "honours_dry_run env \<longrightarrow> archive ?w2 = archive w1"
      "trace ?w2 = trace w1 @ e0" "list_all is_dry_event e0"
      using rsync_dir_dry [OF Cons.prems(1), of env wn an w1]
        rsync_dir_dry_trace [OF Cons.prems(1), of env wn an w1]
      by (cases "test_no_rsync a") auto
    from e0 e1 e2 have "work w' = work w" "honours_dry_run env \<longrightarrow> archive w' = archive w"
      "trace w' = trace w @ (e1 @ e0 @ e2)" "list_all is_dry_event (e1 @ e0 @ e2)"
      by (auto simp: list_all_iff)
    then show ?thesis by blast
  qed
qed

lemma main_dry:
  assumes "dry_run a" and "main env a wl al w = (x, w')"
  shows "work w' = work w \<and> (honours_dry_run env \<longrightarrow> archive w' = archive w)
       \<and> (\<exists>evs. trace w' = trace w @ evs \<and> list_all is_dry_event evs)"
proof (cases "mark_requested a")
  case True
  then obtain m where m: "mark a = Some m"
    by (auto simp: mark_requested_def split: option.splits)
  from assms True m have "w' = w\<lparr>ticks := Suc (ticks w)\<rparr>"
    by (auto simp: main_def mark_dir_dry)
  then have "work w' = work w" "archive w' = archive w" "trace w' = trace w @ []"
    "list_all is_dry_event []" by simp_all
  then show ?thesis by blast
next
  case False
  let ?w1 = "w\<lparr>trace := trace w @ [Listed_archive]\<rparr>"
  let ?w2 = "w\<lparr>trace := trace w @ [Listed_archive, Listed_work]\<rparr>"
  let ?ns = "sort (filter (\<lambda>n. is_dir w (Work n)) wl)"
  note m = main_unfold [OF False, of env wl al w]
  show ?thesis
  proof (cases "known_archive_dirs ?w1 al")
    case (Inl e)
    with assms m have "w' = ?w1" by auto
    then have "work w' = work w" "archive w' = archive w" "trace w' = trace w @ [Listed_archive]"
      "list_all is_dry_event [Listed_archive]" by simp_all
    then show ?thesis by blast
  next
    case (Inr known)
    obtain y w2 where s: "scan env a known ?ns ?w2 no_result = (y, w2)"
      by (cases "scan env a known ?ns ?w2 no_result")
    from scan_dry [OF assms(1) s]
    have f: "work w2 = work w" "archive w2 = archive w"
      "trace w2 = trace w @ [Listed_archive, Listed_work]" by simp_all
    show ?thesis
    proof (cases y)
      case (Inl e)
      with assms m Inr s have "w' = w2" by simp
      with f have "work w' = work w" "archive w' = archive w"
        "trace w' = trace w @ [Listed_archive, Listed_work]"
        "list_all is_dry_event [Listed_archive, Listed_work]" by simp_all
      then show ?thesis by blast
    next
      case r: (Inr r)
      obtain z w3 where t: "run_rsync env a (rsync_todo r) w2 = (z, w3)"
        by (cases "run_rsync env a (rsync_todo r) w2")
      from assms m Inr s r t have "w' = w3"
        by (cases z) (simp_all split: if_splits)
      with run_rsync_dry [OF assms(1) t] obtain rs where
        "work w' = work w2" "honours_dry_run env \<longrightarrow> archive w' = archive w2"
        "trace w' = trace w2 @ rs" "list_all is_dry_event rs"
        by blast
      with f have "work w' = work w" "honours_dry_run env \<longrightarrow> archive w' = archive w"
        "trace w' = trace w @ ([Listed_archive, Listed_work] @ rs)"
        "list_all is_dry_event ([Listed_archive, Listed_work] @ rs)"
        by simp_all
      then show ?thesis by blast
    qed
  qed
qed

lemma write_id_exists:
  "write_id q i w = (x, w') \<Longrightarrow> (entry_at w' p = None) = (entry_at w p = None)"
  by (cases "p = q") (auto simp: write_id_def split: sum.splits)

lemma mark_paths_exists:
  "mark_paths a i ps w = (x, w') \<Longrightarrow> (entry_at w' p = None) = (entry_at w p = None)"
proof (induction ps arbitrary: w)
  case Nil
  then show ?case by simp
next
  case (Cons q ps)
  show ?case
  proof (cases "dry_run a")
    case True
    with Cons show ?thesis by simp
  next
    case False
    obtain y w1 where s: "write_id q i w = (y, w1)" by (cases "write_id q i w")
    show ?thesis
    proof (cases y)
      case (Inl e)
      with s False Cons.prems have "w' = w1" by simp
      with write_id_exists [OF s] show ?thesis by simp
    next
      case (Inr u)
      with s False Cons.prems have "mark_paths a i ps w1 = (x, w')" by simp
      from Cons.IH [OF this] write_id_exists [OF s] show ?thesis by simp
    qed
  qed
qed

lemma mark_dir_exists:
  assumes "mark_dir env a p1 p2 w = (x, w')"
  shows "(entry_at w' p = None) = (entry_at w p = None)"
proof -
  let ?ps = "p1 # (case p2 of None \<Rightarrow> [] | Some q \<Rightarrow> [q])"
  obtain y w1 where
    s: "mark_paths a (fresh_id env a p1 w) ?ps (w\<lparr>ticks := Suc (ticks w)\<rparr>) = (y, w1)"
    by (cases "mark_paths a (fresh_id env a p1 w) ?ps (w\<lparr>ticks := Suc (ticks w)\<rparr>)")
  from assms s have "w' = w1" by (auto simp: mark_dir_def Let_def split: sum.splits)
  with mark_paths_exists [OF s, of p] show ?thesis by simp
qed

lemma scan_step_exists:
  assumes "scan_step env a known n w = (Inr d, w')" and "\<forall>b. fst d \<noteq> RENAMED b"
  shows "(archive w' m = None) = (archive w m = None)"
proof -
  have "(entry_at w' (Archive m) = None) = (entry_at w (Archive m) = None)"
    using assms
    by (auto simp: scan_step_def split: sum.splits option.splits if_splits prod.splits
          dest: mark_dir_exists [where p = "Archive m"])
  then show ?thesis by simp
qed

lemma read_dir_id_cong:
  "entry_at w p = entry_at v q \<Longrightarrow> read_dir_id w p = read_dir_id v q"
  by (simp add: read_dir_id_cases)

lemma step_dry_real:
  assumes d: "scan_step env (a\<lparr>dry_run := True\<rparr>) known n wd = (Inr dd, wd')"
    and r: "scan_step env (a\<lparr>dry_run := False\<rparr>) known n wr = (Inr dr, wr')"
    and w: "work wr n = work wd n"
    and e: "\<forall>m. (archive wr m = None) = (archive wd m = None)"
    and nr: "\<forall>b. fst dd \<noteq> RENAMED b"
  shows "dr = dd"
proof -
  from w have rd: "read_dir_id wr (Work n) = read_dir_id wd (Work n)"
    by (intro read_dir_id_cong) simp
  from e have "(archive wr n = None) = (archive wd n = None)" by blast
  then have ex: "path_exists wr (Archive n) = path_exists wd (Archive n)"
    by (cases "archive wr n"; cases "archive wd n") (simp_all add: path_exists_def)
  from d r nr show ?thesis
    unfolding scan_step_def rd ex
    by (auto simp: mark_dir_dry split: sum.splits option.splits if_splits prod.splits)
qed

lemma scan_dry_real:
  assumes "scan env (a\<lparr>dry_run := True\<rparr>) known ns wd r = (Inr rd, wd')"
    and "scan env (a\<lparr>dry_run := False\<rparr>) known ns wr r = (Inr rr, wr')"
    and "distinct ns"
    and "\<forall>m\<in>set ns. work wr m = work wd m"
    and "\<forall>m. (archive wr m = None) = (archive wd m = None)"
    and "\<forall>n b. (n, RENAMED b) \<notin> set (logged rd)"
  shows "rr = rd"
  using assms
proof (induction ns arbitrary: wd wr r)
  case Nil
  then show ?case by simp
next
  case (Cons n ns)
  let ?ad = "a\<lparr>dry_run := True\<rparr>" and ?ar = "a\<lparr>dry_run := False\<rparr>"
  obtain xd wd1 where sd: "scan_step env ?ad known n wd = (xd, wd1)"
    by (cases "scan_step env ?ad known n wd")
  with Cons.prems(1) obtain dd where dd: "xd = Inr dd"
    and restd: "scan env ?ad known ns wd1 (record_decision n dd r) = (Inr rd, wd')"
    by (cases xd) auto
  obtain xr wr1 where sr: "scan_step env ?ar known n wr = (xr, wr1)"
    by (cases "scan_step env ?ar known n wr")
  with Cons.prems(2) obtain dr where dr: "xr = Inr dr"
    and restr: "scan env ?ar known ns wr1 (record_decision n dr r) = (Inr rr, wr')"
    by (cases xr) auto
  have "(n, fst dd) \<in> set (logged (record_decision n dd r))"
    by (cases "snd dd") (simp_all add: record_decision_def)
  with scan_mono [OF restd] have "(n, fst dd) \<in> set (logged rd)" by auto
  with Cons.prems(6) have nr: "\<forall>b. fst dd \<noteq> RENAMED b" by metis
  from Cons.prems(4) have wn: "work wr n = work wd n" by simp
  from step_dry_real [OF sd [unfolded dd] sr [unfolded dr] wn Cons.prems(5) nr]
  have eq: "dr = dd" .
  have dryf: "work wd1 = work wd" "archive wd1 = archive wd"
    using scan_step_dry [OF _ sd] by simp_all
  have w1: "\<forall>m\<in>set ns. work wr1 m = work wd1 m"
  proof
    fix m assume m: "m \<in> set ns"
    with Cons.prems(3) have "m \<noteq> n" by auto
    from scan_step_work [OF sr this] Cons.prems(4) m dryf show "work wr1 m = work wd1 m"
      by simp
  qed
  have e1: "\<forall>m. (archive wr1 m = None) = (archive wd1 m = None)"
    using scan_step_exists [OF sr [unfolded dr]] nr eq Cons.prems(5) dryf by simp
  from Cons.prems(3) have "distinct ns" by simp
  from Cons.IH [OF restd restr [unfolded eq] this w1 e1 Cons.prems(6)] show ?case .
qed

lemma mark_requested_dry_run [simp]: "mark_requested (a\<lparr>dry_run := d\<rparr>) = mark_requested a"
  by (simp add: mark_requested_def)

text \<open>C1, as amended. A run with the dry-run flag writes no identity file and renames
  no directory: the work root is left as it was, and so is the archive root when the
  mirror honours \<^verbatim>\<open>--dry-run\<close>; the mirror is still invoked, always with that flag.
  When the dry run and the run without the flag both complete on the same roots (with
  the same other options and a listing without repetitions), and the dry run reports
  no entry as \<open>RENAMED\<close>, both produce the same decisions, the same sync plan and the
  same skipped list, and return the same value.\<close>

theorem dry_run_faithful:
  "(main env (a\<lparr>dry_run := True\<rparr>) wl al w = (x, w') \<longrightarrow>
      work w' = work w \<and> (honours_dry_run env \<longrightarrow> archive w' = archive w)
      \<and> (\<exists>evs. trace w' = trace w @ evs \<and> list_all is_dry_event evs))
   \<and> (main env (a\<lparr>dry_run := True\<rparr>) wl al w = (Inr (rcd, rd), wd)
      \<and> main env (a\<lparr>dry_run := False\<rparr>) wl al w = (Inr (rcr, rr), wr)
      \<and> distinct wl \<and> (\<forall>n b. (n, RENAMED b) \<notin> set (logged rd)) \<longrightarrow>
      rr = rd \<and> rcr = rcd)"
proof (rule conjI; rule impI)
  assume "main env (a\<lparr>dry_run := True\<rparr>) wl al w = (x, w')"
  from main_dry [OF _ this]
  show "work w' = work w \<and> (honours_dry_run env \<longrightarrow> archive w' = archive w)
      \<and> (\<exists>evs. trace w' = trace w @ evs \<and> list_all is_dry_event evs)"
    by simp
next
  let ?ad = "a\<lparr>dry_run := True\<rparr>" and ?ar = "a\<lparr>dry_run := False\<rparr>"
  assume h: "main env ?ad wl al w = (Inr (rcd, rd), wd)
      \<and> main env ?ar wl al w = (Inr (rcr, rr), wr)
      \<and> distinct wl \<and> (\<forall>n b. (n, RENAMED b) \<notin> set (logged rd))"
  then have d: "main env ?ad wl al w = (Inr (rcd, rd), wd)"
    and r: "main env ?ar wl al w = (Inr (rcr, rr), wr)"
    and dw: "distinct wl" and nr: "\<forall>n b. (n, RENAMED b) \<notin> set (logged rd)"
    by simp_all
  show "rr = rd \<and> rcr = rcd"
  proof (cases "mark_requested a")
    case True
    then have "mark_requested ?ad" "mark_requested ?ar" by simp_all
    from main_mark_result [OF this(1) d] main_mark_result [OF this(2) r]
    show ?thesis by auto
  next
    case False
    then have md: "\<not> mark_requested ?ad" and mr: "\<not> mark_requested ?ar" by simp_all
    let ?w2 = "w\<lparr>trace := trace w @ [Listed_archive, Listed_work]\<rparr>"
    let ?ns = "sort (filter (\<lambda>n. is_dir w (Work n)) wl)"
    from main_scan [OF md d] obtain kd vd where
      kd: "known_archive_dirs (w\<lparr>trace := trace w @ [Listed_archive]\<rparr>) al = Inr kd"
      and sd: "scan env ?ad kd ?ns ?w2 no_result = (Inr rd, vd)"
      and cd: "rcd = Some (if skipped rd \<noteq> [] \<and> report_skipped ?ad then 1 else 0)"
      by blast
    from main_scan [OF mr r] obtain kr vr where
      kr: "known_archive_dirs (w\<lparr>trace := trace w @ [Listed_archive]\<rparr>) al = Inr kr"
      and sr: "scan env ?ar kr ?ns ?w2 no_result = (Inr rr, vr)"
      and cr: "rcr = Some (if skipped rr \<noteq> [] \<and> report_skipped ?ar then 1 else 0)"
      by blast
    from kd kr have k: "kr = kd" by simp
    from dw have dn: "distinct ?ns" by simp
    from scan_dry_real [OF sd sr [unfolded k] dn _ _ nr] have "rr = rd" by simp
    with cd cr show ?thesis by simp
  qed
qed

text \<open>C1, witness: three work subdirectories, none of them renamed.\<close>

theorem dry_run_faithful_witness:
  "fst (main env0 (args0\<lparr>dry_run := True\<rparr>) [''alpha'', ''beta'', ''gamma''] [''beta'', ''gamma'']
        scenario_world) =
     Inr (Some 0,
        \<lparr>logged = [(''alpha'', NEW), (''beta'', RESYNC), (''gamma'', NEW_CONFLICT_SKIP)],
         rsync_todo = [(''alpha'', ''alpha''), (''beta'', ''beta'')],
         skipped = [(''gamma'', NEW_CONFLICT_SKIP)]\<rparr>)
   \<and> fst (main env0 (args0\<lparr>dry_run := False\<rparr>) [''alpha'', ''beta'', ''gamma'']
        [''beta'', ''gamma''] scenario_world) =
     fst (main env0 (args0\<lparr>dry_run := True\<rparr>) [''alpha'', ''beta'', ''gamma'']
        [''beta'', ''gamma''] scenario_world)
   \<and> work (snd (main env0 (args0\<lparr>dry_run := True\<rparr>) [''alpha'', ''beta'', ''gamma'']
        [''beta'', ''gamma''] scenario_world)) = work scenario_world
   \<and> archive (snd (main env0 (args0\<lparr>dry_run := True\<rparr>) [''alpha'', ''beta'', ''gamma'']
        [''beta'', ''gamma''] scenario_world)) = archive scenario_world
   \<and> list_all is_dry_event (trace (snd (main env0 (args0\<lparr>dry_run := True\<rparr>)
        [''alpha'', ''beta'', ''gamma''] [''beta'', ''gamma''] scenario_world)))"
proof -
  let ?wl = "[''alpha'', ''beta'', ''gamma'']" and ?al = "[''beta'', ''gamma'']"
  let ?r = "\<lparr>logged = [(''alpha'', NEW), (''beta'', RESYNC), (''gamma'', NEW_CONFLICT_SKIP)],
         rsync_todo = [(''alpha'', ''alpha''), (''beta'', ''beta'')],
         skipped = [(''gamma'', NEW_CONFLICT_SKIP)]\<rparr>"
  obtain xd wd where d: "main env0 (args0\<lparr>dry_run := True\<rparr>) ?wl ?al scenario_world = (xd, wd)"
    by (cases "main env0 (args0\<lparr>dry_run := True\<rparr>) ?wl ?al scenario_world")
  obtain xr wr where r: "main env0 (args0\<lparr>dry_run := False\<rparr>) ?wl ?al scenario_world = (xr, wr)"
    by (cases "main env0 (args0\<lparr>dry_run := False\<rparr>) ?wl ?al scenario_world")
  have "fst (main env0 (args0\<lparr>dry_run := True\<rparr>) ?wl ?al scenario_world) = Inr (Some 0, ?r)"
    by (simp add: main_def mark_requested_def args0_def known_archive_dirs_def is_dir_def
          scan_step_def scenario_world_def world_of_def read_dir_id_def isfile_awid_def
          strip_def isspace_def path_exists_def no_result_def record_decision_def env0_def
          rsync_dir_def rsync_command_def RSYNC_FLAGS_def copy_mirror_def mark_dir_def
          fresh_id_def write_id_def clock_def Let_def)
  with d have xd: "xd = Inr (Some 0, ?r)" by simp
  have "fst (main env0 (args0\<lparr>dry_run := False\<rparr>) ?wl ?al scenario_world) = Inr (Some 0, ?r)"
    by (simp add: main_def mark_requested_def args0_def known_archive_dirs_def is_dir_def
          scan_step_def scenario_world_def world_of_def read_dir_id_def isfile_awid_def
          strip_def isspace_def path_exists_def no_result_def record_decision_def env0_def
          rsync_dir_def rsync_command_def RSYNC_FLAGS_def copy_mirror_def mark_dir_def
          fresh_id_def write_id_def clock_def Let_def)
  with r have xr: "xr = Inr (Some 0, ?r)" by simp
  have h: "honours_dry_run env0" "distinct ?wl" "\<forall>n b. (n, RENAMED b) \<notin> set (logged ?r)"
    "trace scenario_world = []"
    by (simp_all add: honours_dry_run_def env0_def copy_mirror_def scenario_world_def world_of_def)
  from dry_run_faithful [where env = env0 and a = args0 and wl = ?wl and al = ?al
      and w = scenario_world and x = xd and w' = wd and rcd = "Some 0" and rd = ?r and wd = wd
      and rcr = "Some 0" and rr = ?r and wr = wr] d r xd xr h
  show ?thesis by auto
qed

text \<open>C1, counterexample to the claim as stated. The work subdirectory \<^verbatim>\<open>a\<close> and the
  archive subdirectory \<^verbatim>\<open>b\<close> share an identity: the run without the flag puts \<^verbatim>\<open>a\<close>
  into the sync plan, the dry run puts it into the skipped list. And a dry run does
  invoke the mirror (with \<^verbatim>\<open>--dry-run\<close>), here for the new directory \<^verbatim>\<open>d\<close>.\<close>

theorem dry_run_skips_renamed:
  "fst (main env0 (args0\<lparr>dry_run := False\<rparr>) [''a''] [''b''] rename_world) =
     Inr (Some 0,
        \<lparr>logged = [(''a'', RENAMED ''b'')], rsync_todo = [(''a'', ''a'')], skipped = []\<rparr>)
   \<and> fst (main env0 (args0\<lparr>dry_run := True\<rparr>) [''a''] [''b''] rename_world) =
     Inr (Some 0,
        \<lparr>logged = [(''a'', RENAMED ''b'')], rsync_todo = [],
         skipped = [(''a'', RENAMED ''b'')]\<rparr>)
   \<and> trace (snd (main env0 (args0\<lparr>dry_run := True\<rparr>) [''d''] [] new_world)) =
     [Listed_archive, Listed_work,
      Ran [''rsync'', ''-a'', ''--delete'', ''--dry-run'', ''w/d/'', ''a/d'']]"
  by (simp add: main_def mark_requested_def args0_def known_archive_dirs_def is_dir_def
        scan_step_def rename_world_def new_world_def world_of_def read_dir_id_def
        isfile_awid_def strip_def isspace_def path_exists_def no_result_def
        record_decision_def env0_def rsync_dir_def os_rename_def moved_def rsync_command_def
        RSYNC_FLAGS_def copy_mirror_def mark_dir_def Let_def)

subsection \<open>A second run\<close>

lemma strip_nonblank:
  assumes "\<not> isspace c"
  shows "strip (c # xs) \<noteq> []"
proof -
  have "dropWhile isspace (rev xs @ [c]) \<noteq> []"
    using assms by (simp add: dropWhile_eq_Nil_conv)
  with assms show ?thesis by (simp add: strip_def)
qed

lemma first_line_Cons:
  "\<not> isspace c \<Longrightarrow> first_line (c # xs) = c # first_line xs"
  by (auto simp: first_line_def isspace_def)

lemma fresh_id_readable:
  assumes "timestamps_printable env"
  shows "strip (first_line (fresh_id env a p w)) \<noteq> []"
proof -
  from assms obtain c cs where n: "now env (ticks w) = c # cs" "\<not> isspace c"
    by (cases "now env (ticks w)") (auto simp: timestamps_printable_def dest: spec [of _ "ticks w"])
  then have "first_line (fresh_id env a p w) = c # first_line (cs @ '' '' @ path_str a p)"
    by (simp add: fresh_id_def first_line_Cons)
  with n(2) strip_nonblank show ?thesis by simp
qed

lemma open_write_Inr:
  "open_write e t = Inr d \<Longrightarrow> \<exists>s c. e = Some (Dir s c) \<and> d = Dir (Content t) c"
  by (induction e t rule: open_write.induct) simp_all

lemma write_id_Inr:
  "write_id p t w = (Inr u, w') \<Longrightarrow>
   \<exists>s c. entry_at w p = Some (Dir s c) \<and> entry_at w' p = Some (Dir (Content t) c)"
  by (auto simp: write_id_def split: sum.splits dest: open_write_Inr)

lemma mark_dir_marks:
  assumes "mark_dir env a p1 p2 w = (Inr i, w')" and "\<not> dry_run a" and "p2 \<noteq> Some p1"
  shows "\<exists>c. entry_at w' p1 = Some (Dir (Content (fresh_id env a p1 w)) c)"
proof -
  let ?i = "fresh_id env a p1 w" and ?w0 = "w\<lparr>ticks := Suc (ticks w)\<rparr>"
  let ?rest = "case p2 of None \<Rightarrow> [] | Some q \<Rightarrow> [q]"
  obtain y w1 where s: "write_id p1 ?i ?w0 = (y, w1)" by (cases "write_id p1 ?i ?w0")
  obtain z w2 where t: "mark_paths a ?i ?rest w1 = (z, w2)" by (cases "mark_paths a ?i ?rest w1")
  from assms(1,2) s t have y: "y = Inr ()" and w2: "w2 = w'"
    by (cases y; cases z; simp add: mark_dir_def Let_def)+
  from write_id_Inr [OF s [unfolded y]] obtain c where
    "entry_at w1 p1 = Some (Dir (Content ?i) c)" by blast
  moreover from assms(3) have "p1 \<notin> set ?rest" by (auto split: option.splits)
  from mark_paths_frame [OF t this] have "entry_at w2 p1 = entry_at w1 p1" .
  ultimately show ?thesis using w2 by auto
qed

lemma scan_step_synced:
  assumes s: "scan_step env a known n w = (Inr (act, Some t), w')"
    and "\<not> dry_run a" and "timestamps_printable env"
  shows "t = n \<and> (\<exists>i. read_dir_id w' (Work n) = Inr (Some i))"
proof -
  have fresh: "\<exists>i. read_dir_id w' (Work m) = Inr (Some i)"
    if "mark_dir env a (Work m) p2 w = (Inr j, w')" "p2 \<noteq> Some (Work m)" for p2 j m
  proof -
    from mark_dir_marks [OF that(1) assms(2) that(2)] obtain c where
      "entry_at w' (Work m) = Some (Dir (Content (fresh_id env a (Work m) w)) c)" by blast
    with fresh_id_readable [OF assms(3), of a "Work m" w] show ?thesis
      by (simp add: read_dir_id_cases)
  qed
  have keep: "\<exists>i. read_dir_id w' (Work m) = Inr (Some i)"
    if "read_dir_id w (Work m) = Inr (Some j)" "os_rename k m w = (Inr (), w')" for j k m
    using that read_dir_id_cong [of w' "Work m" w "Work m"] os_rename_work [OF that(2)] by simp
  from s assms(2) show ?thesis
    unfolding scan_step_def
    by (auto split: sum.splits option.splits if_splits prod.splits
          intro: fresh keep)
qed

lemma scan_synced:
  assumes "scan env a known ns w r = (Inr r', w')"
    and "\<not> dry_run a" and "timestamps_printable env" and "distinct ns"
    and "\<forall>p\<in>set (rsync_todo r). snd p = fst p \<and> fst p \<notin> set ns
          \<and> (\<exists>i. read_dir_id w (Work (fst p)) = Inr (Some i))"
    and "distinct (map fst (rsync_todo r))"
  shows "(\<forall>p\<in>set (rsync_todo r'). snd p = fst p
          \<and> (\<exists>i. read_dir_id w' (Work (fst p)) = Inr (Some i)))
       \<and> distinct (map fst (rsync_todo r'))"
  using assms
proof (induction ns arbitrary: w r)
  case Nil
  then show ?case by simp
next
  case (Cons n ns)
  obtain x w1 where s: "scan_step env a known n w = (x, w1)"
    by (cases "scan_step env a known n w")
  with Cons.prems(1) obtain d where d: "x = Inr d"
    and rest: "scan env a known ns w1 (record_decision n d r) = (Inr r', w')"
    by (cases x) auto
  let ?r1 = "record_decision n d r"
  from Cons.prems(4) have dn: "distinct ns" and nn: "n \<notin> set ns" by simp_all
  have old: "snd p = fst p \<and> fst p \<notin> set ns
          \<and> (\<exists>i. read_dir_id w1 (Work (fst p)) = Inr (Some i))"
    if "p \<in> set (rsync_todo r)" for p
  proof -
    from Cons.prems(5) that have p: "snd p = fst p" "fst p \<notin> set (n # ns)"
      "\<exists>i. read_dir_id w (Work (fst p)) = Inr (Some i)" by blast+
    then have "fst p \<noteq> n" by simp
    from scan_step_work [OF s this] have "entry_at w1 (Work (fst p)) = entry_at w (Work (fst p))"
      by simp
    from read_dir_id_cong [OF this] p show ?thesis by simp
  qed
  have inv: "\<forall>p\<in>set (rsync_todo ?r1). snd p = fst p \<and> fst p \<notin> set ns
          \<and> (\<exists>i. read_dir_id w1 (Work (fst p)) = Inr (Some i))"
    and dis: "distinct (map fst (rsync_todo ?r1))"
  proof -
    show "\<forall>p\<in>set (rsync_todo ?r1). snd p = fst p \<and> fst p \<notin> set ns
          \<and> (\<exists>i. read_dir_id w1 (Work (fst p)) = Inr (Some i))"
    proof (cases "snd d")
      case None
      then have "rsync_todo ?r1 = rsync_todo r" by (simp add: record_decision_def)
      with old show ?thesis by simp
    next
      case (Some t)
      then have t: "rsync_todo ?r1 = rsync_todo r @ [(n, t)]" by (simp add: record_decision_def)
      from Some have "d = (fst d, Some t)" by (cases d) simp
      with s d have "scan_step env a known n w = (Inr (fst d, Some t), w1)" by simp
      from scan_step_synced [OF this Cons.prems(2,3)] nn
      have "t = n" "n \<notin> set ns" "\<exists>i. read_dir_id w1 (Work n) = Inr (Some i)" by simp_all
      with old t show ?thesis by auto
    qed
    show "distinct (map fst (rsync_todo ?r1))"
    proof (cases "snd d")
      case None
      then have "rsync_todo ?r1 = rsync_todo r" by (simp add: record_decision_def)
      with Cons.prems(6) show ?thesis by simp
    next
      case (Some t)
      then have t: "rsync_todo ?r1 = rsync_todo r @ [(n, t)]" by (simp add: record_decision_def)
      from Cons.prems(5) have "n \<notin> fst ` set (rsync_todo r)" by auto
      with Cons.prems(6) t show ?thesis by simp
    qed
  qed
  from Cons.IH [OF rest Cons.prems(2,3) dn inv dis] show ?case .
qed

lemma attempt_renames_frame:
  "attempt_renames env a wn an w = (x, w') \<Longrightarrow>
   work w' = work w \<and> (\<forall>m. m \<noteq> an \<longrightarrow> archive w' m = archive w m)"
  by (auto simp: attempt_renames_def split: option.splits entry.splits prod.splits)

lemma rsync_dir_frame:
  "work (rsync_dir env a wn an w) = work w
   \<and> (\<forall>m. m \<noteq> an \<longrightarrow> archive (rsync_dir env a wn an w) m = archive w m)"
  by (simp add: rsync_dir_def Let_def)

lemma run_rsync_frame:
  "run_rsync env a todo w = (x, w') \<Longrightarrow>
   work w' = work w \<and> (\<forall>m. m \<notin> snd ` set todo \<longrightarrow> archive w' m = archive w m)"
proof (induction todo arbitrary: w)
  case Nil
  then show ?case by simp
next
  case (Cons p todo)
  obtain wn an where p: "p = (wn, an)" by (cases p)
  let ?pre = "if rename a then attempt_renames env a wn an w else (Inr (), w)"
  obtain y w1 where s: "?pre = (y, w1)" by (cases ?pre)
  have f1: "work w1 = work w \<and> (\<forall>m. m \<noteq> an \<longrightarrow> archive w1 m = archive w m)"
  proof (cases "rename a")
    case True
    with s attempt_renames_frame [of env a wn an w y w1] show ?thesis by simp
  next
    case False
    with s show ?thesis by simp
  qed
  show ?case
  proof (cases y)
    case (Inl e)
    with s p Cons.prems have "w' = w1" by simp
    with f1 p show ?thesis by simp
  next
    case (Inr u)
    let ?w2 = "if test_no_rsync a then w1 else rsync_dir env a wn an w1"
    from Inr s p Cons.prems have "run_rsync env a todo ?w2 = (x, w')"
      by (simp split: if_splits)
    from Cons.IH [OF this]
    have f3: "work w' = work ?w2" "\<forall>m. m \<notin> snd ` set todo \<longrightarrow> archive w' m = archive ?w2 m"
      by simp_all
    have f2: "work ?w2 = work w1 \<and> (\<forall>m. m \<noteq> an \<longrightarrow> archive ?w2 m = archive w1 m)"
      using rsync_dir_frame [of env a wn an w1] by (cases "test_no_rsync a") simp_all
    from f1 f2 f3 p show ?thesis by simp
  qed
qed

lemma run_rsync_mirrors:
  assumes "run_rsync env a todo w = (Inr u, w')"
    and "\<not> test_no_rsync a" and "mirror_copies env a"
    and "distinct (map fst todo)"
    and "\<forall>p\<in>set todo. snd p = fst p \<and> work w (fst p) \<noteq> None"
  shows "work w' = work w \<and> (\<forall>p\<in>set todo. archive w' (fst p) = work w (fst p))"
  using assms
proof (induction todo arbitrary: w)
  case Nil
  then show ?case by simp
next
  case (Cons p todo)
  from Cons.prems(5) obtain n where p: "p = (n, n)" and wn: "work w n \<noteq> None"
    by (cases p) auto
  let ?pre = "if rename a then attempt_renames env a n n w else (Inr (), w)"
  obtain y w1 where s: "?pre = (y, w1)" by (cases ?pre)
  have f1: "work w1 = work w"
  proof (cases "rename a")
    case True
    with s attempt_renames_frame [of env a n n w y w1] show ?thesis by simp
  next
    case False
    with s show ?thesis by simp
  qed
  from s p Cons.prems(1) have y: "y = Inr ()" by (cases y) simp_all
  let ?w2 = "rsync_dir env a n n w1"
  from y s p Cons.prems(1,2) have rest: "run_rsync env a todo ?w2 = (Inr u, w')" by simp
  have w2: "work ?w2 = work w" using f1 by (simp add: rsync_dir_def Let_def)
  from wn obtain src where src: "work w n = Some src" by auto
  with Cons.prems(3) f1 have a2: "archive ?w2 n = work w n"
    by (simp add: rsync_dir_def Let_def mirror_copies_def)
  from Cons.prems(4) p have dt: "distinct (map fst todo)" and nt: "n \<notin> fst ` set todo"
    by simp_all
  from Cons.prems(5) w2 have pt: "\<forall>q\<in>set todo. snd q = fst q \<and> work ?w2 (fst q) \<noteq> None"
    by simp
  from Cons.IH [OF rest Cons.prems(2,3) dt pt] w2
  have ih: "work w' = work w" "\<forall>q\<in>set todo. archive w' (fst q) = work w (fst q)" by simp_all
  from pt nt have "n \<notin> snd ` set todo" by force
  with run_rsync_frame [OF rest] a2 have "archive w' n = work w n" by simp
  with ih p show ?case by simp
qed

lemma collect_known_keeps:
  "collect_known w ns known = Inr k \<Longrightarrow> known i = Some z0 \<Longrightarrow> \<exists>z. k i = Some z"
proof (induction ns arbitrary: known z0)
  case Nil
  then show ?case by simp
next
  case (Cons n ns)
  from Cons.prems(1) obtain v where rd: "read_dir_id w (Archive n) = Inr v"
    by (cases "read_dir_id w (Archive n)") simp_all
  show ?case
  proof (cases v)
    case None
    with rd Cons show ?thesis by simp
  next
    case (Some j)
    with rd Cons.prems(1) have c: "collect_known w ns (known(j \<mapsto> n)) = Inr k" by simp
    from Cons.prems(2) obtain z1 where "(known(j \<mapsto> n)) i = Some z1" by (cases "i = j") simp_all
    from Cons.IH [OF c this] show ?thesis .
  qed
qed

lemma collect_known_complete:
  "collect_known w ns known = Inr k \<Longrightarrow> n \<in> set ns \<Longrightarrow>
   read_dir_id w (Archive n) = Inr (Some i) \<Longrightarrow> \<exists>z. k i = Some z"
proof (induction ns arbitrary: known)
  case Nil
  then show ?case by simp
next
  case (Cons m ns)
  from Cons.prems(1) obtain v where rd: "read_dir_id w (Archive m) = Inr v"
    by (cases "read_dir_id w (Archive m)") simp_all
  show ?case
  proof (cases "m = n")
    case True
    with rd Cons.prems(3) have v: "v = Some i" by simp
    with rd Cons.prems(1) have c: "collect_known w ns (known(i \<mapsto> m)) = Inr k" by simp
    from collect_known_keeps [OF c, of i m] show ?thesis by simp
  next
    case False
    with Cons.prems(2) have n: "n \<in> set ns" by simp
    show ?thesis
    proof (cases v)
      case None
      with rd Cons.prems(1) have "collect_known w ns known = Inr k" by simp
      from Cons.IH [OF this n Cons.prems(3)] show ?thesis .
    next
      case (Some j)
      with rd Cons.prems(1) have "collect_known w ns (known(j \<mapsto> m)) = Inr k" by simp
      from Cons.IH [OF this n Cons.prems(3)] show ?thesis .
    qed
  qed
qed

lemma collect_known_sound:
  "collect_known w ns known = Inr k \<Longrightarrow> k i = Some z \<Longrightarrow>
   known i = Some z \<or> (z \<in> set ns \<and> read_dir_id w (Archive z) = Inr (Some i))"
proof (induction ns arbitrary: known)
  case Nil
  then show ?case by simp
next
  case (Cons m ns)
  from Cons.prems(1) obtain v where rd: "read_dir_id w (Archive m) = Inr v"
    by (cases "read_dir_id w (Archive m)") simp_all
  show ?case
  proof (cases v)
    case None
    with rd Cons.prems(1) have "collect_known w ns known = Inr k" by simp
    from Cons.IH [OF this Cons.prems(2)] show ?thesis by auto
  next
    case (Some j)
    with rd Cons.prems(1) have "collect_known w ns (known(j \<mapsto> m)) = Inr k" by simp
    from Cons.IH [OF this Cons.prems(2)]
    have "(known(j \<mapsto> m)) i = Some z \<or> (z \<in> set ns \<and> read_dir_id w (Archive z) = Inr (Some i))" .
    with rd Some show ?thesis by (cases "i = j") auto
  qed
qed

lemma known_archive_dirs_sound:
  "known_archive_dirs w al = Inr k \<Longrightarrow> k i = Some z \<Longrightarrow>
   read_dir_id w (Archive z) = Inr (Some i)"
  using collect_known_sound [of w "filter (\<lambda>n. is_dir w (Archive n)) al" Map.empty k i z]
  by (simp add: known_archive_dirs_def)

lemma known_archive_dirs_complete:
  "known_archive_dirs w al = Inr k \<Longrightarrow> n \<in> set al \<Longrightarrow>
   read_dir_id w (Archive n) = Inr (Some i) \<Longrightarrow> \<exists>z. k i = Some z"
  using collect_known_complete [of w "filter (\<lambda>n. is_dir w (Archive n)) al" Map.empty k n i]
    read_Some_is_dir [of w "Archive n" i]
  by (simp add: known_archive_dirs_def)

lemma scan_step_archive_frame:
  assumes "scan_step env a known n w = (x, w')" and "m \<noteq> n" and "m \<notin> ran known"
  shows "archive w' m = archive w m"
proof -
  have k: "k \<noteq> m" if "known i = Some k" for i k
    using that assms(3) by (auto simp: ran_def)
  have "entry_at w' (Archive m) = entry_at w (Archive m)"
    using assms(1,2)
    by (auto simp: scan_step_def split: sum.splits option.splits if_splits prod.splits
          dest: mark_dir_frame [where p = "Archive m"] os_rename_archive [where m = m] k)
  then show ?thesis by simp
qed

lemma scan_reaches_archive:
  assumes "scan env a known ns w r = (Inr r', w')" and "n \<in> set ns"
  shows "\<exists>w1 w2 d. work w1 n = work w n \<and> (n \<notin> ran known \<longrightarrow> archive w1 n = archive w n)
     \<and> scan_step env a known n w1 = (Inr d, w2)
     \<and> (n, fst d) \<in> set (logged r')
     \<and> (case snd d of Some t \<Rightarrow> (n, t) \<in> set (rsync_todo r')
         | None \<Rightarrow> (n, fst d) \<in> set (skipped r'))"
  using assms
proof (induction ns arbitrary: w r)
  case Nil
  then show ?case by simp
next
  case (Cons m ns)
  obtain x w1 where s: "scan_step env a known m w = (x, w1)"
    by (cases "scan_step env a known m w")
  with Cons.prems(1) obtain d where d: "x = Inr d"
    and rest: "scan env a known ns w1 (record_decision m d r) = (Inr r', w')"
    by (cases x) auto
  show ?case
  proof (cases "m = n")
    case True
    have "(n, fst d) \<in> set (logged (record_decision n d r))"
      "case snd d of Some t \<Rightarrow> (n, t) \<in> set (rsync_todo (record_decision n d r))
         | None \<Rightarrow> (n, fst d) \<in> set (skipped (record_decision n d r))"
      by (cases "snd d"; simp add: record_decision_def)+
    with scan_mono [OF rest] True
    have "(n, fst d) \<in> set (logged r')"
      "case snd d of Some t \<Rightarrow> (n, t) \<in> set (rsync_todo r')
         | None \<Rightarrow> (n, fst d) \<in> set (skipped r')"
      by (auto split: option.splits)
    with s d True show ?thesis by blast
  next
    case False
    with Cons.prems(2) have "n \<in> set ns" by simp
    from Cons.IH [OF rest this] obtain v1 v2 d' where
      v: "work v1 n = work w1 n" "n \<notin> ran known \<longrightarrow> archive v1 n = archive w1 n"
      "scan_step env a known n v1 = (Inr d', v2)"
      "(n, fst d') \<in> set (logged r')"
      "case snd d' of Some t \<Rightarrow> (n, t) \<in> set (rsync_todo r')
         | None \<Rightarrow> (n, fst d') \<in> set (skipped r')"
      by blast
    from scan_step_work [OF s] False have 1: "work w1 n = work w n" by auto
    from scan_step_archive_frame [OF s] False
    have 2: "n \<notin> ran known \<longrightarrow> archive w1 n = archive w n" by auto
    from v 1 2 have "work v1 n = work w n" "n \<notin> ran known \<longrightarrow> archive v1 n = archive w n"
      by simp_all
    with v(3,4,5) show ?thesis by blast
  qed
qed

lemma resync_step:
  assumes s: "scan_step env a known n u = (Inr d, u')" and "\<not> dry_run a"
    and rd: "read_dir_id u (Work n) = Inr (Some i)" and k: "known i = Some z"
    and full: "z \<noteq> n \<longrightarrow> (\<exists>s c. archive u n = Some (Dir s c) \<and> s \<noteq> Absent)"
  shows "d = (RESYNC, Some n)"
proof (cases "z = n")
  case True
  with s rd k show ?thesis by (simp add: scan_step_def)
next
  case False
  with full obtain s' c where "archive u n = Some (Dir s' c)" "s' \<noteq> Absent" by blast
  with False have "\<exists>e. os_rename z n u = (Inl e, u)"
    by (auto simp: os_rename_def split: option.splits entry.splits)
  with s rd k False assms(2) show ?thesis by (auto simp: scan_step_def)
qed

lemma scan_logged_names:
  "scan env a known ns w r = (Inr r', w') \<Longrightarrow> map fst (logged r') = map fst (logged r) @ ns"
proof (induction ns arbitrary: w r)
  case Nil
  then show ?case by simp
next
  case (Cons n ns)
  obtain x w1 where s: "scan_step env a known n w = (x, w1)"
    by (cases "scan_step env a known n w")
  with Cons.prems obtain d where d: "x = Inr d"
    and rest: "scan env a known ns w1 (record_decision n d r) = (Inr r', w')"
    by (cases x) auto
  have "map fst (logged (record_decision n d r)) = map fst (logged r) @ [n]"
    by (cases "snd d") (simp_all add: record_decision_def)
  with Cons.IH [OF rest] show ?case by simp
qed

lemma pairs_of_names:
  "\<forall>p\<in>set xs. snd p = fst p \<Longrightarrow> xs = map (\<lambda>n. (n, n)) (map fst xs)"
  by (induction xs) (auto simp: prod_eq_iff)

lemma read_Some_Content:
  "read_dir_id w p = Inr (Some i) \<Longrightarrow> \<exists>s c. entry_at w p = Some (Dir s c) \<and> s \<noteq> Absent"
  by (auto simp: read_dir_id_cases split: option.splits entry.splits sentinel.splits)

text \<open>C3, as amended. Run the reconciler twice in a row with the same options (not a dry
  run, the mirror not disabled), with no change to the file system in between other
  than what the first run did, its mirror leaving every archive target a copy of its
  work source. The listings of the work root have no repetitions, the second run's
  listings contain the names synced by the first run, and time stamps begin with a
  character that is not white space. If the second run completes, then every pair
  synced by the first run is in the second run's sync plan, is logged as \<open>RESYNC\<close> and
  as nothing else (so never as new or as restored), and the first run's sync plan is
  the second run's sync plan restricted to those pairs, in the same order. (The second
  run need not complete: it ends with the error of a rename when two directories share
  an identity.)\<close>

theorem second_run_resyncs:
  assumes run1: "main env a wl al w = (Inr (rc1, r1), w1)"
    and run2: "main env a wl2 al2 w1 = (Inr (rc2, r2), w2)"
    and real: "\<not> dry_run a" "\<not> test_no_rsync a"
    and ext: "mirror_copies env a" "timestamps_printable env"
    and dist: "distinct wl" "distinct wl2"
    and lst: "fst ` set (rsync_todo r1) \<subseteq> set wl2 \<inter> set al2"
  shows "(\<forall>p\<in>set (rsync_todo r1). snd p = fst p \<and> p \<in> set (rsync_todo r2)
            \<and> (fst p, RESYNC) \<in> set (logged r2)
            \<and> (\<forall>act. (fst p, act) \<in> set (logged r2) \<longrightarrow> act = RESYNC))
       \<and> filter (\<lambda>p. p \<in> set (rsync_todo r1)) (rsync_todo r2) = rsync_todo r1"
proof (cases "mark_requested a")
  case True
  from main_mark_result [OF True run1] have "rsync_todo r1 = []"
    by (auto simp: no_result_def)
  then show ?thesis by simp
next
  case False
  let ?A = "rsync_todo r1" and ?B = "rsync_todo r2"
  let ?ns1 = "sort (filter (\<lambda>n. is_dir w (Work n)) wl)"
  let ?ns2 = "sort (filter (\<lambda>n. is_dir w1 (Work n)) wl2)"
  let ?u1 = "w\<lparr>trace := trace w @ [Listed_archive, Listed_work]\<rparr>"
  let ?u2 = "w1\<lparr>trace := trace w1 @ [Listed_archive, Listed_work]\<rparr>"
  from main_scan [OF False run1] obtain known1 v1 where
    sc1: "scan env a known1 ?ns1 ?u1 no_result = (Inr r1, v1)"
    and rs1: "run_rsync env a ?A v1 = (Inr (), w1)"
    by blast
  from main_scan [OF False run2] obtain known2 v2 where
    k2: "known_archive_dirs w1 al2 = Inr known2"
    and sc2: "scan env a known2 ?ns2 ?u2 no_result = (Inr r2, v2)"
    by auto
  have dn1: "distinct ?ns1" and dn2: "distinct ?ns2" using dist by simp_all
  have e: "\<forall>p\<in>set (rsync_todo no_result). snd p = fst p \<and> fst p \<notin> set ns
          \<and> (\<exists>i. read_dir_id u (Work (fst p)) = Inr (Some i))"
    "distinct (map fst (rsync_todo no_result))" for ns and u :: "'a world"
    by (simp_all add: no_result_def)
  from scan_synced [OF sc1 real(1) ext(2) dn1 e]
  have A1: "\<forall>p\<in>set ?A. snd p = fst p \<and> (\<exists>i. read_dir_id v1 (Work (fst p)) = Inr (Some i))"
    and D1: "distinct (map fst ?A)" by simp_all
  from scan_synced [OF sc2 real(1) ext(2) dn2 e]
  have A2: "\<forall>p\<in>set ?B. snd p = fst p" and D2: "distinct (map fst ?B)" by simp_all
  from scan_sorted [OF sc1] have S1: "sorted (map fst ?A)" by (auto simp: no_result_def)
  from scan_sorted [OF sc2] have S2: "sorted (map fst ?B)" by (auto simp: no_result_def)
  from scan_logged_names [OF sc2] dn2 have DL: "distinct (map fst (logged r2))"
    by (simp add: no_result_def)
  have wk: "\<forall>p\<in>set ?A. snd p = fst p \<and> work v1 (fst p) \<noteq> None"
  proof
    fix p assume "p \<in> set ?A"
    with A1 obtain i where "snd p = fst p" "read_dir_id v1 (Work (fst p)) = Inr (Some i)"
      by blast
    with read_Some_Content [of v1 "Work (fst p)" i]
    show "snd p = fst p \<and> work v1 (fst p) \<noteq> None" by auto
  qed
  from run_rsync_mirrors [OF rs1 real(2) ext(1) D1 wk]
  have W: "work w1 = work v1" and M: "\<forall>p\<in>set ?A. archive w1 (fst p) = work v1 (fst p)"
    by simp_all
  have each: "snd p = fst p \<and> p \<in> set ?B \<and> (fst p, RESYNC) \<in> set (logged r2)
            \<and> (\<forall>act. (fst p, act) \<in> set (logged r2) \<longrightarrow> act = RESYNC)"
    if p: "p \<in> set ?A" for p
  proof -
    let ?n = "fst p"
    from A1 p obtain i where sp: "snd p = ?n" and "read_dir_id v1 (Work ?n) = Inr (Some i)"
      by blast
    with W have rdw: "read_dir_id w1 (Work ?n) = Inr (Some i)"
      using read_dir_id_cong [of w1 "Work ?n" v1 "Work ?n"] by simp
    from M p W have ea: "archive w1 ?n = work w1 ?n" by simp
    then have rda: "read_dir_id w1 (Archive ?n) = Inr (Some i)"
      using read_dir_id_cong [of w1 "Archive ?n" w1 "Work ?n"] rdw by simp
    from read_Some_Content [OF rdw] obtain s0 c0 where
      ct: "work w1 ?n = Some (Dir s0 c0)" "s0 \<noteq> Absent" by auto
    from lst p have inl: "?n \<in> set wl2" "?n \<in> set al2" by auto
    from read_Some_is_dir [OF rdw] inl(1) have n2: "?n \<in> set ?ns2" by simp
    from known_archive_dirs_complete [OF k2 inl(2) rda] obtain z where z: "known2 i = Some z"
      by blast
    from scan_reaches_archive [OF sc2 n2] obtain u u' d where
      u: "work u ?n = work ?u2 ?n" "?n \<notin> ran known2 \<longrightarrow> archive u ?n = archive ?u2 ?n"
        "scan_step env a known2 ?n u = (Inr d, u')"
        "(?n, fst d) \<in> set (logged r2)"
        "case snd d of Some t \<Rightarrow> (?n, t) \<in> set ?B | None \<Rightarrow> (?n, fst d) \<in> set (skipped r2)"
      by blast
    from u(1) rdw have rdu: "read_dir_id u (Work ?n) = Inr (Some i)"
      using read_dir_id_cong [of u "Work ?n" w1 "Work ?n"] by simp
    have full: "z \<noteq> ?n \<longrightarrow> (\<exists>s c. archive u ?n = Some (Dir s c) \<and> s \<noteq> Absent)"
    proof
      assume zn: "z \<noteq> ?n"
      have "?n \<notin> ran known2"
      proof
        assume "?n \<in> ran known2"
        then obtain j where j: "known2 j = Some ?n" by (auto simp: ran_def)
        from known_archive_dirs_sound [OF k2 j] rda have "j = i" by simp
        with j z zn show False by simp
      qed
      with u(2) ea ct have "archive u ?n = Some (Dir s0 c0)" by simp
      with ct(2) show "\<exists>s c. archive u ?n = Some (Dir s c) \<and> s \<noteq> Absent" by simp
    qed
    from resync_step [OF u(3) real(1) rdu z full] have d: "d = (RESYNC, Some ?n)" .
    with u(4,5) have lg: "(?n, RESYNC) \<in> set (logged r2)" and "(?n, ?n) \<in> set ?B"
      by simp_all
    with sp have pb: "p \<in> set ?B" by (cases p) simp
    have "act = RESYNC" if "(?n, act) \<in> set (logged r2)" for act
      using eq_key_imp_eq_value [OF DL that lg] .
    with sp pb lg show ?thesis by blast
  qed
  let ?F = "filter (\<lambda>p. p \<in> set ?A) ?B"
  from each have sub: "set ?A \<subseteq> set ?B" by blast
  then have sF: "set ?F = set ?A" by auto
  have "sorted (map fst ?F)" using S2 by (rule sorted_filter)
  moreover have "distinct (map fst ?F)" using D2 by (rule distinct_map_filter)
  moreover from sF have "set (map fst ?F) = set (map fst ?A)" by simp
  ultimately have "map fst ?F = map fst ?A"
    using S1 D1 by (intro sorted_distinct_set_unique)
  moreover from A1 have "?A = map (\<lambda>n. (n, n)) (map fst ?A)"
    by (intro pairs_of_names) blast
  moreover from A1 sF have "?F = map (\<lambda>n. (n, n)) (map fst ?F)"
    by (intro pairs_of_names) blast
  ultimately have "?F = ?A" by metis
  with each show ?thesis by blast
qed

text \<open>The definitions that evaluate a run on a concrete input.\<close>

lemmas run_defs = main_def mark_requested_def args0_def known_archive_dirs_def is_dir_def
  scan_step_def world_of_def read_dir_id_def isfile_awid_def
  strip_def isspace_def path_exists_def no_result_def record_decision_def env0_def
  rsync_dir_def rsync_command_def RSYNC_FLAGS_def copy_mirror_def mark_dir_def
  fresh_id_def write_id_def clock_def os_rename_def moved_def Let_def

text \<open>C3, witness: the scenario with a new, a known and a conflicting subdirectory, run
  twice.\<close>

theorem second_run_resyncs_witness:
  "fst (main env0 args0 [''gamma'', ''beta'', ''alpha''] [''gamma'', ''beta''] scenario_world) =
     Inr (Some 0,
        \<lparr>logged = [(''alpha'', NEW), (''beta'', RESYNC), (''gamma'', NEW_CONFLICT_SKIP)],
         rsync_todo = [(''alpha'', ''alpha''), (''beta'', ''beta'')],
         skipped = [(''gamma'', NEW_CONFLICT_SKIP)]\<rparr>)
   \<and> fst (main env0 args0 [''gamma'', ''beta'', ''alpha''] [''gamma'', ''beta'', ''alpha'']
        (snd (main env0 args0 [''gamma'', ''beta'', ''alpha''] [''gamma'', ''beta'']
               scenario_world))) =
     Inr (Some 0,
        \<lparr>logged = [(''alpha'', RESYNC), (''beta'', RESYNC), (''gamma'', NEW_CONFLICT_SKIP)],
         rsync_todo = [(''alpha'', ''alpha''), (''beta'', ''beta'')],
         skipped = [(''gamma'', NEW_CONFLICT_SKIP)]\<rparr>)"
proof -
  let ?wl = "[''gamma'', ''beta'', ''alpha'']" and ?al = "[''gamma'', ''beta'']"
  let ?r1 = "\<lparr>logged = [(''alpha'', NEW), (''beta'', RESYNC), (''gamma'', NEW_CONFLICT_SKIP)],
         rsync_todo = [(''alpha'', ''alpha''), (''beta'', ''beta'')],
         skipped = [(''gamma'', NEW_CONFLICT_SKIP)]\<rparr>"
  let ?r2 = "\<lparr>logged = [(''alpha'', RESYNC), (''beta'', RESYNC), (''gamma'', NEW_CONFLICT_SKIP)],
         rsync_todo = [(''alpha'', ''alpha''), (''beta'', ''beta'')],
         skipped = [(''gamma'', NEW_CONFLICT_SKIP)]\<rparr>"
  obtain x1 w1 where run1: "main env0 args0 ?wl ?al scenario_world = (x1, w1)"
    by (cases "main env0 args0 ?wl ?al scenario_world")
  obtain x2 w2 where run2: "main env0 args0 ?wl ?wl w1 = (x2, w2)"
    by (cases "main env0 args0 ?wl ?wl w1")
  have f1: "fst (main env0 args0 ?wl ?al scenario_world) = Inr (Some 0, ?r1)"
    by (simp add: run_defs scenario_world_def)
  with run1 have x1: "x1 = Inr (Some 0, ?r1)" by simp
  have "\<exists>rc r. fst (main env0 args0 ?wl ?wl (snd (main env0 args0 ?wl ?al scenario_world)))
      = Inr (rc, r)"
    by (simp add: run_defs scenario_world_def)
  with run1 run2 obtain rc2 r2 where x2: "x2 = Inr (rc2, r2)" by auto
  have h: "\<not> dry_run args0" "\<not> test_no_rsync args0" "mirror_copies env0 args0"
    "timestamps_printable env0" "distinct ?wl"
    "fst ` set (rsync_todo ?r1) \<subseteq> set ?wl \<inter> set ?wl"
    by (simp_all add: args0_def mirror_copies_def timestamps_printable_def env0_def
          copy_mirror_def rsync_command_def RSYNC_FLAGS_def clock_def isspace_def)
  note t = second_run_resyncs [OF run1 [unfolded x1] run2 [unfolded x2] h(1,2,3,4,5,5,6)]
  have "fst (main env0 args0 ?wl ?wl (snd (main env0 args0 ?wl ?al scenario_world)))
      = Inr (Some 0, ?r2)"
    by (simp add: run_defs scenario_world_def)
  with f1 t show ?thesis by simp
qed

text \<open>C3, counterexample to the claim as stated. The work subdirectories \<^verbatim>\<open>a\<close> and
  \<^verbatim>\<open>b\<close> carry the same identity (say \<^verbatim>\<open>b\<close> is a copy of \<^verbatim>\<open>a\<close>), and the archive has
  \<^verbatim>\<open>a\<close>. The first run completes and syncs both. The second run, in whichever order
  the archive is listed, classifies nothing as \<open>RESYNC\<close> to the end: it tries to rename
  one archive subdirectory onto the other and ends with the error of
  \<^verbatim>\<open>os.rename\<close>.\<close>

theorem shared_identity_breaks_second_run:
  "fst (main env0 args0 [''a'', ''b''] [''a''] dup_world) =
     Inr (Some 0,
        \<lparr>logged = [(''a'', RESYNC), (''b'', RENAMED ''a'')],
         rsync_todo = [(''a'', ''a''), (''b'', ''b'')], skipped = []\<rparr>)
   \<and> fst (main env0 args0 [''a'', ''b''] [''a'', ''b'']
           (snd (main env0 args0 [''a'', ''b''] [''a''] dup_world))) = Inl DirectoryNotEmpty
   \<and> fst (main env0 args0 [''a'', ''b''] [''b'', ''a'']
           (snd (main env0 args0 [''a'', ''b''] [''a''] dup_world))) = Inl DirectoryNotEmpty"
  by (simp add: run_defs dup_world_def)

end
